theory Spec2Isabelle
  imports Main
begin

chapter \<open>The embedding\<close>

section \<open>Python strings\<close>

text \<open>
  A Python \<open>str\<close> is a sequence of Unicode code points, so a string is a list of
  code points and \<open>len\<close> is \<open>length\<close>. ASCII literals are written through
  \<open>ascii\<close>; Cyrillic literals are given by their code points.
\<close>

type_synonym pystr = "nat list"

definition ascii :: "string \<Rightarrow> pystr" where
  "ascii s = map of_char s"

text \<open>\<open>s.startswith(p)\<close>, \<open>s.endswith(p)\<close> and \<open>x in s\<close> for strings.\<close>

fun startswith :: "pystr \<Rightarrow> pystr \<Rightarrow> bool" where
  "startswith s [] = True"
| "startswith [] (p # ps) = False"
| "startswith (c # cs) (p # ps) = (c = p \<and> startswith cs ps)"

definition endswith :: "pystr \<Rightarrow> pystr \<Rightarrow> bool" where
  "endswith s p = startswith (rev s) (rev p)"

fun contains :: "pystr \<Rightarrow> pystr \<Rightarrow> bool" where
  "contains x [] = (x = [])"
| "contains x (c # cs) = (startswith (c # cs) x \<or> contains x cs)"

text \<open>\<open>any(...)\<close> over a finite sequence of booleans, left to right.\<close>

fun py_any :: "bool list \<Rightarrow> bool" where
  "py_any [] = False"
| "py_any (b # bs) = (if b then True else py_any bs)"

text \<open>\<open>s.startswith((p1, p2, ...))\<close>: the tuple form.\<close>

definition startswith_any :: "pystr \<Rightarrow> pystr list \<Rightarrow> bool" where
  "startswith_any s ps = py_any (map (startswith s) ps)"

text \<open>
  Modelled from the spec: the comparison of a required suffix as section 4.2 words it,
  the raw file name ends with the suffix, letter case ignored. The suffixes of the
  rules are ASCII (\<open>.xlsx\<close>), so the case ignored is that of the letters \<open>A\<close> to \<open>Z\<close>;
  \<open>ascii_lower_cp\<close> changes no other code point.
\<close>

definition ascii_lower_cp :: "nat \<Rightarrow> nat" where
  "ascii_lower_cp c = (if 65 \<le> c \<and> c \<le> 90 then c + 32 else c)"

definition endswith_ci :: "pystr \<Rightarrow> pystr \<Rightarrow> bool" where
  "endswith_ci s p = endswith (map ascii_lower_cp s) (map ascii_lower_cp p)"

section \<open>Exceptions\<close>

text \<open>
  \<open>exception\<close> stands for the subclasses of Python's \<open>Exception\<close>, the ones an
  \<open>except Exception\<close> clause catches; \<open>base_exception\<close> adds the two classes of
  \<open>BaseException\<close> outside it.
\<close>

datatype exception =
  AttributeError | ImportError | KeyError | OSError | RuntimeError | UnicodeEncodeError | ValueError

datatype base_exception = KeyboardInterrupt | SystemExit | Exception exception

section \<open>The clock\<close>

text \<open>
  \<open>datetime.now()\<close> is an input of the model. A \<open>datetime\<close> carries the proleptic
  Gregorian ordinal of its local date (\<open>date.toordinal()\<close>) and the second of the day;
  \<open>weekday()\<close> is CPython's \<open>(self.toordinal() + 6) % 7\<close>, Monday being 0.
\<close>

record datetime =
  toordinal :: nat
  second_of_day :: nat

definition weekday :: "datetime \<Rightarrow> nat" where
  "weekday d = (toordinal d + 6) mod 7"

section \<open>Values and standard output\<close>

text \<open>
  The one condition that prints needs Python's \<open>or\<close> on a value that is not a
  boolean.
\<close>

datatype pyval = PNone | PBool bool

fun truthy :: "pyval \<Rightarrow> bool" where
  "truthy PNone = False"
| "truthy (PBool b) = b"

text \<open>
  \<open>sys.stdout\<close> is a text stream: it may be closed, it has an encoding with the error
  handler \<open>strict\<close> (\<open>encodable\<close> says which code points the encoding has), the write
  to the file descriptor may fail, and \<open>written\<close> is the text it has taken so far.
  test_conditions.py leaves the stream as the interpreter set it up; only main.py
  (lines 17 to 19) reconfigures it to UTF-8.
\<close>

record stdout =
  closed :: bool
  encodable :: "nat \<Rightarrow> bool"
  write_error :: "exception option"
  written :: pystr

text \<open>
  \<open>print(msg)\<close> writes the text and a newline and returns \<open>None\<close>. The write raises
  \<open>ValueError\<close> on a closed stream, \<open>UnicodeEncodeError\<close> when the encoding lacks a
  code point of the text, and whatever the write to the file descriptor raises.
\<close>

definition py_print :: "pystr \<Rightarrow> stdout \<Rightarrow> exception + pyval \<times> stdout" where
  "py_print msg out =
     (if closed out then Inl ValueError
      else if \<not> list_all (encodable out) (msg @ [10]) then Inl UnicodeEncodeError
      else (case write_error out of
              Some e \<Rightarrow> Inl e
            | None \<Rightarrow> Inr (PNone, out\<lparr>written := written out @ msg @ [10]\<rparr>)))"

definition str_of_bool :: "bool \<Rightarrow> pystr" where
  "str_of_bool b = (if b then ascii ''True'' else ascii ''False'')"

section \<open>The conditions of \<open>test_configs\<close> (test_conditions.py)\<close>

text \<open>
  \<open>normalize_filename_for_comparison\<close> lives in \<open>core/utils.py\<close>; every condition
  takes it as the parameter \<open>norm\<close>. The Cyrillic literals are given as code
  points: the prefix of the normatives report, and the two spellings each of the
  balances report and of the assets report.
\<close>

definition norm_cyr :: pystr where
  "norm_cyr = [1085, 1086, 1088, 1084]"

definition zalishki_cyr :: pystr where
  "zalishki_cyr = [1079, 1072, 1083, 1080, 1096, 1082, 1080, 32, 1085, 1072, 32,
                   1088, 1072, 1093, 32, 1074, 1082, 1083]"

definition zalishki_lat :: pystr where
  "zalishki_lat = ascii ''zalishki na rax vkl''"

definition aktivi_cyr :: pystr where
  "aktivi_cyr = [1072, 1082, 1090, 1080, 1074, 1080]"

definition aktivi_lat :: pystr where
  "aktivi_lat = ascii ''aktivi''"

text \<open>
  \<^verbatim>\<open>lambda name: normalize_filename_for_comparison(name).startswith("01x")
               and name.endswith(".xlsx")\<close>
\<close>

definition cond_01x :: "(pystr \<Rightarrow> pystr) \<Rightarrow> pystr \<Rightarrow> bool" where
  "cond_01x norm name =
     (startswith (norm name) (ascii ''01x'') \<and> endswith name (ascii ''.xlsx''))"

text \<open>
  \<^verbatim>\<open>lambda name: normalize_filename_for_comparison(name).startswith((<norm>, "norm"))\<close>
\<close>

definition cond_norm :: "(pystr \<Rightarrow> pystr) \<Rightarrow> pystr \<Rightarrow> bool" where
  "cond_norm norm name = startswith_any (norm name) [norm_cyr, ascii ''norm'']"

text \<open>
  The substring test shared by the balances and the assets conditions:
  \<^verbatim>\<open>any(x in normalize_filename_for_comparison(name) for x in (a, b))\<close>
\<close>

definition any_in_normalized :: "(pystr \<Rightarrow> pystr) \<Rightarrow> pystr list \<Rightarrow> pystr \<Rightarrow> bool" where
  "any_in_normalized norm xs name = py_any (map (\<lambda>x. contains x (norm name)) xs)"

text \<open>
  \<^verbatim>\<open>lambda name: (datetime.now().weekday() == 4
                 and any(x in normalize_filename_for_comparison(name) for x in (...)))\<close>
  The clock reading is the argument \<open>now\<close>.
\<close>

definition cond_zalishki :: "(pystr \<Rightarrow> pystr) \<Rightarrow> datetime \<Rightarrow> pystr \<Rightarrow> bool" where
  "cond_zalishki norm now name =
     (if weekday now = 4
      then any_in_normalized norm [zalishki_cyr, zalishki_lat] name
      else False)"

text \<open>
  The diagnostic condition: \<^verbatim>\<open>lambda name: (print(f"...") or any(...))\<close>. The four
  lines of the f-string are put together from the name, its normalized form and the
  two membership tests. The lambda has no \<open>try\<close>: an exception of \<open>print\<close> is the
  outcome of the condition, and \<open>any(...)\<close> is not evaluated.
\<close>

definition aktivi_message :: "(pystr \<Rightarrow> pystr) \<Rightarrow> pystr \<Rightarrow> pystr" where
  "aktivi_message norm name =
     [1055, 1088, 1086, 1074, 1077, 1088, 1082, 1072, 32, 39] @ aktivi_cyr
       @ [39, 32, 1076, 1083, 1103, 32, 39] @ name
     @ [39, 10, 1053, 1086, 1088, 1084, 1072, 1083, 1080, 1079, 1086, 1074, 1072, 1085,
        1086, 58, 32, 39] @ norm name
     @ [39, 10, 1057, 1086, 1076, 1077, 1088, 1078, 1080, 1090, 32, 39] @ aktivi_cyr
       @ [39, 58, 32] @ str_of_bool (contains aktivi_cyr (norm name))
     @ [10, 1057, 1086, 1076, 1077, 1088, 1078, 1080, 1090, 32, 39] @ aktivi_lat
       @ [39, 58, 32] @ str_of_bool (contains aktivi_lat (norm name))"

definition cond_aktivi ::
  "(pystr \<Rightarrow> pystr) \<Rightarrow> pystr \<Rightarrow> stdout \<Rightarrow> exception + pyval \<times> stdout" where
  "cond_aktivi norm name out =
     (case py_print (aktivi_message norm name) out of
        Inl e \<Rightarrow> Inl e
      | Inr (v, out') \<Rightarrow>
          if truthy v then Inr (v, out')
          else Inr (PBool (any_in_normalized norm [aktivi_cyr, aktivi_lat] name), out'))"

text \<open>The predicate the diagnostic condition wraps, without the \<open>print\<close>.\<close>

definition cond_aktivi_pure :: "(pystr \<Rightarrow> pystr) \<Rightarrow> pystr \<Rightarrow> bool" where
  "cond_aktivi_pure norm name = any_in_normalized norm [aktivi_cyr, aktivi_lat] name"

text \<open>\<^verbatim>\<open>lambda name: normalize_filename_for_comparison(name).startswith("sr")\<close>\<close>

definition cond_sr :: "(pystr \<Rightarrow> pystr) \<Rightarrow> pystr \<Rightarrow> bool" where
  "cond_sr norm name = startswith (norm name) (ascii ''sr'')"

section \<open>Rule matching (\<open>test_real_files\<close>)\<close>

text \<open>
  \<^verbatim>\<open>normalized = normalize_filename_for_comparison(filename)
  if any(cond(normalized) for cond in conditions): matching_files.append(filename)\<close>
  A condition is a predicate on the name it is given; the clock and the normalizer it
  uses are fixed when the list is built.
\<close>

type_synonym condition = "pystr \<Rightarrow> bool"

definition rule_matches :: "(pystr \<Rightarrow> pystr) \<Rightarrow> condition list \<Rightarrow> pystr \<Rightarrow> bool" where
  "rule_matches norm conditions filename =
     (let normalized = norm filename
      in py_any (map (\<lambda>cond. cond normalized) conditions))"

definition matching_files :: "(pystr \<Rightarrow> pystr) \<Rightarrow> condition list \<Rightarrow> pystr list \<Rightarrow> pystr list" where
  "matching_files norm conditions real_files =
     filter (rule_matches norm conditions) real_files"

section \<open>The normalizer\<close>

text \<open>
  Modelled from the spec: \<open>normalize_filename_for_comparison\<close> of \<open>core/utils.py\<close>,
  which is not among the sources. Section 4.1 and the glossary give the comparison form
  of a file name as case folding of all characters, then folding of the layout aliases
  by a fixed table, then punctuation cleanup (runs of spaces become one space, trailing
  underscores are dropped); code points outside the tables pass through, and no input
  raises. The case folding and the table are parameters of the model: \<open>case_fold\<close>
  gives for a code point the code points of its folded form (one, or more, as for
  U+0130), and \<open>alias\<close> is the table, the identity outside its pairs. This is the
  full-name form of 4.1, which keeps the extension.
\<close>

definition fold_characters :: "(nat \<Rightarrow> pystr) \<Rightarrow> (nat \<Rightarrow> nat) \<Rightarrow> pystr \<Rightarrow> pystr" where
  "fold_characters case_fold alias s = concat (map (\<lambda>c. map alias (case_fold c)) s)"

fun collapse_spaces :: "pystr \<Rightarrow> pystr" where
  "collapse_spaces (a # b # cs) =
     (if a = 32 \<and> b = 32 then collapse_spaces (b # cs) else a # collapse_spaces (b # cs))"
| "collapse_spaces cs = cs"

definition strip_trailing_underscores :: "pystr \<Rightarrow> pystr" where
  "strip_trailing_underscores s = rev (dropWhile (\<lambda>c. c = 95) (rev s))"

definition cleanup :: "pystr \<Rightarrow> pystr" where
  "cleanup s = strip_trailing_underscores (collapse_spaces s)"

definition normalize_filename_for_comparison ::
  "(nat \<Rightarrow> pystr) \<Rightarrow> (nat \<Rightarrow> nat) \<Rightarrow> pystr \<Rightarrow> pystr" where
  "normalize_filename_for_comparison case_fold alias s =
     cleanup (fold_characters case_fold alias s)"



text \<open>
  Modelled from the spec: section 4.1 asks that the folding goes in one direction, so
  that a second pass finds nothing to do. Here: every code point that the folding of
  some code point produces is folded to itself.
\<close>

definition one_direction :: "(nat \<Rightarrow> pystr) \<Rightarrow> (nat \<Rightarrow> nat) \<Rightarrow> bool" where
  "one_direction case_fold alias =
     (\<forall>c. \<forall>d \<in> set (map alias (case_fold c)). map alias (case_fold d) = [d])"

text \<open>
  Modelled from the spec: the five pairs of the table that section 4.1 lists, folded
  to Latin (U+0430 to a, U+0440 to p, U+0441 to c, U+0435 to e, U+0445 to x); and the
  empty table.
\<close>

definition alias_table :: "nat \<Rightarrow> nat" where
  "alias_table c =
     (if c = 1072 then 97
      else if c = 1088 then 112
      else if c = 1089 then 99
      else if c = 1077 then 101
      else if c = 1093 then 120
      else c)"

definition no_alias :: "nat \<Rightarrow> nat" where
  "no_alias c = c"

text \<open>
  \<open>str.lower()\<close> on the code points the sample names below are written with: the ASCII
  capitals, the capitals of the Russian and Ukrainian alphabets (U+0410..U+042F,
  U+0400..U+040F, U+0490), and U+0130, whose lower-case form has the two code points
  U+0069 U+0307. It stands for \<open>str.lower()\<close> on these code points only and is used
  only to evaluate the normalizer at the sample names; what is proved of the
  normalizer is proved for every case folding.
\<close>

definition sample_case_fold :: "nat \<Rightarrow> pystr" where
  "sample_case_fold c =
     (if 65 \<le> c \<and> c \<le> 90 then [c + 32]
      else if 1040 \<le> c \<and> c \<le> 1071 then [c + 32]
      else if 1024 \<le> c \<and> c \<le> 1039 then [c + 80]
      else if c = 1168 then [1169]
      else if c = 304 then [105, 775]
      else [c])"

text \<open>
  Two instances of the normalizer for the sample names: with the empty table, under
  which the Cyrillic literals of the conditions of test_conditions.py can occur in a
  normalized name, and with the table of section 4.1.
\<close>

definition sample_normalizer :: "pystr \<Rightarrow> pystr" where
  "sample_normalizer = normalize_filename_for_comparison sample_case_fold no_alias"

definition spec_normalizer :: "pystr \<Rightarrow> pystr" where
  "spec_normalizer = normalize_filename_for_comparison sample_case_fold alias_table"

text \<open>A code point that \<open>sample_case_fold\<close> leaves alone.\<close>

definition folded :: "nat \<Rightarrow> bool" where
  "folded e =
     (\<not> (65 \<le> e \<and> e \<le> 90) \<and> \<not> (1024 \<le> e \<and> e \<le> 1071) \<and> e \<noteq> 1168 \<and> e \<noteq> 304)"

text \<open>No two spaces in a row.\<close>

fun no_double_space :: "pystr \<Rightarrow> bool" where
  "no_double_space (a # b # cs) = (\<not> (a = 32 \<and> b = 32) \<and> no_double_space (b # cs))"
| "no_double_space cs = True"

section \<open>Sample inputs\<close>



definition file_01x_XLSX :: pystr where
  "file_01x_XLSX =
     [48, 49, 88, 95, 1041, 1072, 1083, 1072, 1085, 1089, 46, 88, 76, 83, 88]"

definition file_sr :: pystr where
  "file_sr = ascii ''SR_2025.txt''"

definition file_zalishki :: pystr where
  "file_zalishki = ascii ''Zalishki  na rax vkl 15.08.xlsx''"


definition friday :: datetime where
  "friday = \<lparr>toordinal = 739478, second_of_day = 36000\<rparr>"

definition wednesday :: datetime where
  "wednesday = \<lparr>toordinal = 739476, second_of_day = 36000\<rparr>"

text \<open>
  An assets report whose name is not valid Unicode: \<open>aktivi_\<close>, the lone surrogate
  U+DCFF as \<open>iterdir\<close> gives it for a byte of the name that cannot be decoded, and
  \<open>.xlsx\<close>. And a standard output with UTF-8, which has every code point but the
  surrogates U+D800..U+DFFF.
\<close>

definition file_aktivi_surrogate :: pystr where
  "file_aktivi_surrogate = ascii ''aktivi_'' @ [56575] @ ascii ''.xlsx''"

definition utf8_stdout :: stdout where
  "utf8_stdout =
     \<lparr>closed = False,
      encodable = (\<lambda>c. c < 1114112 \<and> \<not> (55296 \<le> c \<and> c \<le> 57343)),
      write_error = None,
      written = []\<rparr>"

section \<open>Log records\<close>

datatype level = INFO | WARNING | ERROR

type_synonym path = pystr

text \<open>
  A description is the configured text or the default
  \<^verbatim>\<open>f"<Observer> {i+1}"\<close>, kept as its number.
\<close>

datatype description = Description pystr | Default_description nat

text \<open>The messages of main.py and of \<open>TrayApp.quit_app\<close>, one constructor for each
  logging call, with the values its f-string prints.\<close>

datatype message =
    Logging_initialised
  | Checking_configuration
  | Configuration_problems_work_continues
  | Configuration_check_failed exception
  | Creating_observers
  | Skipping_missing_directory path
  | Observer_started description path
  | Observer_creation_failed "path option" exception
  | Observers_created nat nat
  | Stopping_observers
  | Observer_stopped description
  | Observer_stop_failed nat exception
  | All_observers_stopped
  | Signal_received nat
  | System_starting
  | Base_directory
  | Critical_configuration_errors
  | No_observer_started
  | Initialising_ui
  | Tray_unavailable
  | System_started nat
  | Tray_mode
  | Console_mode
  | Ctrl_c_received
  | User_interrupt
  | Critical_error exception
  | Shutting_down
  | System_stopped
  | Quit_requested
  | Quit_failed exception

type_synonym log_record = "level \<times> message"

section \<open>Watch configurations, observers and the environment\<close>

text \<open>
  An entry of \<open>WATCH_CONFIGS\<close> is a dict; a key that may be missing is an option.
  \<open>dest_dir\<close> is the rule's destination directory (section 3 of the spec); main.py
  reads the keys \<open>watch_dir\<close>, \<open>conditions\<close> and \<open>description\<close> only.
\<close>

record watch_config =
  watch_dir :: "path option"
  conditions :: "condition list option"
  description :: "pystr option"
  dest_dir :: path

text \<open>A started watchdog observer: the path it is scheduled on (recursively) and the
  conditions of its \<open>MultiDirHandler\<close>.\<close>

record observer =
  watched :: path
  handler_conditions :: "condition list"

text \<open>An entry of the list \<open>validate_paths\<close> checks.\<close>

record path_check =
  check_path :: path
  check_description :: pystr

text \<open>
  What the file system, watchdog and the modules \<open>config\<close> and \<open>core\<close> (none of them
  among the sources) answer. A call that can fail gives the exception it raises; for
  the stop of an observer, which runs inside the \<open>finally\<close> block of \<open>main\<close>, this
  may be any \<open>BaseException\<close>.
\<close>

record environment =
  path_exists :: "path \<Rightarrow> exception + bool"
    \<comment> \<open>\<open>Path(path).exists()\<close>\<close>
  observer_start :: "path \<Rightarrow> exception option"
    \<comment> \<open>\<open>MultiDirHandler(conditions)\<close>, \<open>Observer()\<close>, \<open>schedule\<close>, \<open>start\<close>\<close>
  observer_stop :: "path \<Rightarrow> base_exception option"
    \<comment> \<open>\<open>observer.stop()\<close>, \<open>observer.join(timeout=10)\<close>\<close>
  WATCH_CONFIGS :: "watch_config list"
  get_watch_paths :: "exception + path_check list"
  DEST_BASE :: "exception + path"
    \<comment> \<open>\<open>from config.settings import DEST_BASE, ICON_PATH\<close>\<close>
  ICON_PATH_parent :: path
  validate_paths :: "path_check list \<Rightarrow> exception + bool"
  test_filename_conditions :: "watch_config list \<Rightarrow> exception option"

definition dest_base_description :: pystr where
  "dest_base_description =
     [1041, 1072, 1079, 1086, 1074, 1072, 1103, 32, 1076, 1080, 1088, 1077, 1082, 1090,
      1086, 1088, 1080, 1103, 32, 1085, 1072, 1079, 1085, 1072, 1095, 1077, 1085, 1080, 1103]"

definition icon_directory_description :: pystr where
  "icon_directory_description =
     [1044, 1080, 1088, 1077, 1082, 1090, 1086, 1088, 1080, 1103, 32, 1089, 32, 1080,
      1082, 1086, 1085, 1082, 1086, 1081]"

section \<open>\<open>validate_configuration\<close> (main.py)\<close>

text \<open>
  The value returned and the records logged. Every exception of the \<open>try\<close> body ends
  in the \<open>except Exception\<close> clause: an error record and \<open>False\<close>. A \<open>False\<close> from
  \<open>validate_paths\<close> only adds a warning; the function goes on and returns \<open>True\<close>.
\<close>

definition validate_configuration :: "environment \<Rightarrow> bool \<times> log_record list" where
  "validate_configuration env =
     (case get_watch_paths env of
        Inl e \<Rightarrow> (False, [(INFO, Checking_configuration), (ERROR, Configuration_check_failed e)])
      | Inr paths_to_check \<Rightarrow>
          (case DEST_BASE env of
             Inl e \<Rightarrow>
               (False, [(INFO, Checking_configuration), (ERROR, Configuration_check_failed e)])
           | Inr dest_base \<Rightarrow>
               (case validate_paths env
                       (paths_to_check @
                        [\<lparr>check_path = dest_base, check_description = dest_base_description\<rparr>,
                         \<lparr>check_path = ICON_PATH_parent env,
                          check_description = icon_directory_description\<rparr>]) of
                  Inl e \<Rightarrow>
                    (False,
                     [(INFO, Checking_configuration), (ERROR, Configuration_check_failed e)])
                | Inr all_valid \<Rightarrow>
                    (let warned =
                       (if \<not> all_valid then [(WARNING, Configuration_problems_work_continues)]
                        else [])
                     in case test_filename_conditions env (WATCH_CONFIGS env) of
                          Some e \<Rightarrow>
                            (False,
                             (INFO, Checking_configuration) # warned @
                             [(ERROR, Configuration_check_failed e)])
                        | None \<Rightarrow> (True, (INFO, Checking_configuration) # warned)))))"

section \<open>\<open>create_observers\<close> (main.py)\<close>

text \<open>
  One pass of the loop body for the entry \<open>config\<close> at index \<open>i\<close>, on the list of
  observers and the log so far. A missing key raises \<open>KeyError\<close>; every exception of
  the body is caught, logged as an error, and the loop goes on.
\<close>

definition activate ::
  "environment \<Rightarrow> nat \<Rightarrow> watch_config \<Rightarrow>
   (observer \<times> watch_config) list \<times> log_record list \<Rightarrow>
   (observer \<times> watch_config) list \<times> log_record list" where
  "activate env i config acc =
     (case acc of (observers, lg) \<Rightarrow>
        (case watch_dir config of
           None \<Rightarrow> (observers, lg @ [(ERROR, Observer_creation_failed None KeyError)])
         | Some path \<Rightarrow>
             (case conditions config of
                None \<Rightarrow>
                  (observers, lg @ [(ERROR, Observer_creation_failed (Some path) KeyError)])
              | Some conds \<Rightarrow>
                  (let descr = (case description config of
                                  Some d \<Rightarrow> Description d
                                | None \<Rightarrow> Default_description (i + 1))
                   in case path_exists env path of
                        Inl e \<Rightarrow>
                          (observers,
                           lg @ [(ERROR, Observer_creation_failed (Some path) e)])
                      | Inr False \<Rightarrow>
                          (observers, lg @ [(WARNING, Skipping_missing_directory path)])
                      | Inr True \<Rightarrow>
                          (case observer_start env path of
                             Some e \<Rightarrow>
                               (observers,
                                lg @ [(ERROR, Observer_creation_failed (Some path) e)])
                           | None \<Rightarrow>
                               (observers @
                                [(\<lparr>watched = path, handler_conditions = conds\<rparr>, config)],
                                lg @ [(INFO, Observer_started descr path)]))))))"

text \<open>\<^verbatim>\<open>for i, config in enumerate(WATCH_CONFIGS): ...\<close>\<close>

fun create_observers_loop ::
  "environment \<Rightarrow> nat \<Rightarrow> watch_config list \<Rightarrow>
   (observer \<times> watch_config) list \<times> log_record list \<Rightarrow>
   (observer \<times> watch_config) list \<times> log_record list" where
  "create_observers_loop env i [] acc = acc"
| "create_observers_loop env i (config # rest) acc =
     create_observers_loop env (Suc i) rest (activate env i config acc)"

definition create_observers ::
  "environment \<Rightarrow> (observer \<times> watch_config) list \<times> log_record list" where
  "create_observers env =
     (case create_observers_loop env 0 (WATCH_CONFIGS env) ([], [(INFO, Creating_observers)]) of
        (observers, lg) \<Rightarrow>
          (observers,
           lg @ [(INFO, Observers_created (length observers) (length (WATCH_CONFIGS env)))]))"

text \<open>A configuration gets an observer: both keys are there, the source directory
  exists, and the observer starts.\<close>

definition activates :: "environment \<Rightarrow> watch_config \<Rightarrow> bool" where
  "activates env config =
     (case watch_dir config of
        None \<Rightarrow> False
      | Some path \<Rightarrow>
          (case conditions config of
             None \<Rightarrow> False
           | Some conds \<Rightarrow>
               path_exists env path = Inr True \<and> observer_start env path = None))"

text \<open>A configuration whose source directory is found missing.\<close>

definition source_missing :: "environment \<Rightarrow> watch_config \<Rightarrow> bool" where
  "source_missing env config =
     (case watch_dir config of
        None \<Rightarrow> False
      | Some path \<Rightarrow>
          (case conditions config of
             None \<Rightarrow> False
           | Some conds \<Rightarrow> path_exists env path = Inr False))"

text \<open>
  A sample installation: three rules whose source directories are missing, present
  but not watchable (the observer raises \<open>OSError\<close>), and present; the destination
  directory of all three is missing.
\<close>

definition dir_in :: path where
  "dir_in = ascii ''r:/stat/in''"

definition dir_gone :: path where
  "dir_gone = ascii ''r:/stat/gone''"

definition dir_locked :: path where
  "dir_locked = ascii ''r:/stat/locked''"

definition dir_out :: path where
  "dir_out = ascii ''r:/stat/out''"

definition dir_icons :: path where
  "dir_icons = ascii ''r:/stat/icons''"

definition config_in :: watch_config where
  "config_in = \<lparr>watch_dir = Some dir_in, conditions = Some [cond_sr sample_normalizer],
                description = None, dest_dir = dir_out\<rparr>"

definition config_gone :: watch_config where
  "config_gone = \<lparr>watch_dir = Some dir_gone, conditions = Some [],
                description = Some (ascii ''gone''), dest_dir = dir_out\<rparr>"

definition config_locked :: watch_config where
  "config_locked = \<lparr>watch_dir = Some dir_locked, conditions = Some [],
                description = None, dest_dir = dir_out\<rparr>"

definition sample_exists :: "path \<Rightarrow> bool" where
  "sample_exists p = (p = dir_in \<or> p = dir_locked \<or> p = dir_icons)"

definition sample_environment :: environment where
  "sample_environment =
     \<lparr>path_exists = (\<lambda>p. Inr (sample_exists p)),
      observer_start = (\<lambda>p. if p = dir_locked then Some OSError else None),
      observer_stop = (\<lambda>p. None),
      WATCH_CONFIGS = [config_gone, config_locked, config_in],
      get_watch_paths =
        Inr [\<lparr>check_path = dir_gone, check_description = ascii ''gone''\<rparr>,
             \<lparr>check_path = dir_locked, check_description = ascii ''locked''\<rparr>,
             \<lparr>check_path = dir_in, check_description = ascii ''in''\<rparr>],
      DEST_BASE = Inr dir_out,
      ICON_PATH_parent = dir_icons,
      validate_paths = (\<lambda>checks. Inr (list_all (\<lambda>c. sample_exists (check_path c)) checks)),
      test_filename_conditions = (\<lambda>configs. None)\<rparr>"

section \<open>Statements of \<open>main\<close>\<close>

text \<open>
  The state \<open>main\<close> works on: the module globals \<open>logger\<close> (\<open>None\<close> until
  \<open>setup_logging\<close> has returned) and \<open>RUNNING\<close>, the local \<open>observers\<close> (\<open>None\<close> while
  the name is unbound), whether \<open>tray_app.icon\<close> is set, and the records the module's
  logger has taken.
\<close>

datatype logger = Rotating_file_logger | Basic_logger

record main_state =
  logger :: "logger option"
  RUNNING :: bool
  observers :: "(observer \<times> watch_config) list option"
  tray_icon :: bool
  records :: "log_record list"

text \<open>
  A statement ends normally with a value, with a \<open>return\<close>, or with an exception;
  \<open>seq\<close> runs a second statement after a first one that ended normally.
\<close>

datatype 'a completion = Normal 'a | Return int | Raise base_exception

type_synonym 'a stmt = "main_state \<Rightarrow> 'a completion \<times> main_state"

definition seq :: "'a stmt \<Rightarrow> ('a \<Rightarrow> 'b stmt) \<Rightarrow> 'b stmt" where
  "seq m f s =
     (case m s of
        (Normal a, s') \<Rightarrow> f a s'
      | (Return n, s') \<Rightarrow> (Return n, s')
      | (Raise e, s') \<Rightarrow> (Raise e, s'))"

definition skip :: "unit stmt" where
  "skip s = (Normal (), s)"

definition return_stmt :: "int \<Rightarrow> 'a stmt" where
  "return_stmt n s = (Return n, s)"

definition assign :: "(main_state \<Rightarrow> main_state) \<Rightarrow> unit stmt" where
  "assign f s = (Normal (), f s)"

text \<open>A call of a collaborator that returns nothing: it raises or it does not.\<close>

definition call :: "base_exception option \<Rightarrow> unit stmt" where
  "call outcome s = (case outcome of None \<Rightarrow> (Normal (), s) | Some e \<Rightarrow> (Raise e, s))"

text \<open>
  \<open>logger.info(...)\<close>, \<open>logger.warning(...)\<close>, \<open>logger.error(...)\<close> on the module
  global: an attribute of \<open>None\<close> raises \<open>AttributeError\<close>.
\<close>

definition logger_call :: "level \<Rightarrow> message \<Rightarrow> unit stmt" where
  "logger_call lvl msg s =
     (case logger s of
        None \<Rightarrow> (Raise (Exception AttributeError), s)
      | Some lg \<Rightarrow> (Normal (), s\<lparr>records := records s @ [(lvl, msg)]\<rparr>))"

text \<open>
  A call of a function of main.py that logs through the module global: it raises
  \<open>AttributeError\<close> at its first statement when the logger is \<open>None\<close>; otherwise it
  gives its value and its records.
\<close>

definition logging_function :: "'a \<times> log_record list \<Rightarrow> 'a stmt" where
  "logging_function r s =
     (case logger s of
        None \<Rightarrow> (Raise (Exception AttributeError), s)
      | Some lg \<Rightarrow> (Normal (fst r), s\<lparr>records := records s @ snd r\<rparr>))"

section \<open>The environment of \<open>main\<close>\<close>

text \<open>
  The calls \<open>main\<close> makes; \<open>raises\<close> gives for each the exception that comes out
  of it, if any. A tick says what happens during one \<open>time.sleep(1)\<close> of the console
  loop: nothing, a signal (the handler runs), or an exception out of \<open>sleep\<close>.
\<close>

datatype call_site =
    Signal_SIGINT | Signal_SIGTERM | Validate_configuration | Show_error_notification
  | Create_observers | TrayApp_init | Thread_start | Show_startup_notification

datatype tick = Quiet | Signal nat | Interrupt base_exception

record main_environment =
  world :: environment
  logging_setup :: "base_exception option"
    \<comment> \<open>the \<open>try\<close> body of \<open>setup_logging\<close>\<close>
  logging_fallback :: "base_exception option"
    \<comment> \<open>the \<open>except\<close> body of \<open>setup_logging\<close>\<close>
  raises :: "call_site \<Rightarrow> base_exception option"
  pystray_available :: bool
  create_tray_icon :: bool
    \<comment> \<open>\<open>self.create_tray_icon()\<close> gives an image, not \<open>None\<close>\<close>
  pystray_Icon :: "exception option"
  icon_run :: "base_exception option option"
    \<comment> \<open>\<open>self.icon.run()\<close>: \<open>None\<close> when it never returns\<close>
  ticks :: "nat \<Rightarrow> tick"

section \<open>\<open>setup_logging\<close>, \<open>cleanup_observers\<close>, \<open>signal_handler\<close> (main.py)\<close>

text \<open>
  \<open>setup_logging\<close>: the rotating file logger, or after an \<open>Exception\<close> the basic
  logger. An exception outside \<open>Exception\<close> leaves the function.
\<close>

definition setup_logging :: "main_environment \<Rightarrow> logger stmt" where
  "setup_logging env s =
     (case logging_setup env of
        None \<Rightarrow>
          (Normal Rotating_file_logger, s\<lparr>records := records s @ [(INFO, Logging_initialised)]\<rparr>)
      | Some (Exception e) \<Rightarrow>
          (case logging_fallback env of
             None \<Rightarrow> (Normal Basic_logger, s)
           | Some e' \<Rightarrow> (Raise e', s))
      | Some e \<Rightarrow> (Raise e, s))"

text \<open>
  \<^verbatim>\<open>for i, (observer, config) in enumerate(observers): try: ... stop(); join(...)\<close>:
  one record for each observer. The \<open>except Exception\<close> clause of the loop body
  catches an \<open>Exception\<close> of \<open>stop\<close> or \<open>join\<close> and logs a warning; any other
  exception leaves the loop and \<open>cleanup_observers\<close>.
\<close>

fun cleanup_loop :: "environment \<Rightarrow> nat \<Rightarrow> (observer \<times> watch_config) list \<Rightarrow> unit stmt" where
  "cleanup_loop env i [] = skip"
| "cleanup_loop env i ((ob, config) # rest) =
     seq (case observer_stop env (watched ob) of
            None \<Rightarrow>
              logger_call INFO
                (Observer_stopped
                   (case description config of
                      Some d \<Rightarrow> Description d
                    | None \<Rightarrow> Default_description (i + 1)))
          | Some (Exception e) \<Rightarrow> logger_call WARNING (Observer_stop_failed (i + 1) e)
          | Some e \<Rightarrow> call (Some e))
         (\<lambda>_. cleanup_loop env (Suc i) rest)"

definition cleanup_observers :: "environment \<Rightarrow> (observer \<times> watch_config) list \<Rightarrow> unit stmt" where
  "cleanup_observers env obs =
     seq (logger_call INFO Stopping_observers) (\<lambda>_.
     seq (cleanup_loop env 0 obs) (\<lambda>_.
     logger_call INFO All_observers_stopped))"

definition signal_handler :: "nat \<Rightarrow> unit stmt" where
  "signal_handler signum =
     seq (logger_call INFO (Signal_received signum)) (\<lambda>_.
     assign (\<lambda>s. s\<lparr>RUNNING := False\<rparr>))"

section \<open>\<open>TrayApp.setup_tray\<close> and \<open>TrayApp.run\<close> (ui/tray_app.py)\<close>

text \<open>
  \<open>setup_tray\<close> returns \<open>True\<close>, with \<open>self.icon\<close> set, when pystray is there, an image
  could be made and the icon could be built; otherwise \<open>False\<close>.
\<close>

definition setup_tray :: "main_environment \<Rightarrow> bool" where
  "setup_tray env =
     (if \<not> pystray_available env then False
      else if \<not> create_tray_icon env then False
      else (case pystray_Icon env of Some e \<Rightarrow> False | None \<Rightarrow> True))"

text \<open>
  \<open>run\<close> blocks in \<open>self.icon.run()\<close>: it may never come back (\<open>None\<close>); an
  \<open>Exception\<close> out of it is caught.
\<close>

definition tray_run :: "main_environment \<Rightarrow> main_state \<Rightarrow> (unit completion \<times> main_state) option" where
  "tray_run env s =
     (case icon_run env of
        None \<Rightarrow> None
      | Some None \<Rightarrow> Some (Normal (), s)
      | Some (Some (Exception e)) \<Rightarrow> Some (Normal (), s)
      | Some (Some e) \<Rightarrow> Some (Raise e, s))"

section \<open>\<open>main\<close> (main.py)\<close>

text \<open>The \<open>try\<close> body up to the wait.\<close>

definition startup :: "main_environment \<Rightarrow> unit stmt" where
  "startup env =
     seq (setup_logging env) (\<lambda>lg.
     seq (assign (\<lambda>s. s\<lparr>logger := Some lg\<rparr>)) (\<lambda>_.
     seq (logger_call INFO System_starting) (\<lambda>_.
     seq (logger_call INFO Base_directory) (\<lambda>_.
     seq (call (raises env Signal_SIGINT)) (\<lambda>_.
     seq (call (raises env Signal_SIGTERM)) (\<lambda>_.
     seq (call (raises env Validate_configuration)) (\<lambda>_.
     seq (logging_function (validate_configuration (world env))) (\<lambda>valid.
     if \<not> valid then
       seq (logger_call ERROR Critical_configuration_errors) (\<lambda>_.
       seq (call (raises env Show_error_notification)) (\<lambda>_.
       return_stmt 1))
     else
       seq (call (raises env Create_observers)) (\<lambda>_.
       seq (logging_function (create_observers (world env))) (\<lambda>obs.
       seq (assign (\<lambda>s. s\<lparr>observers := Some obs\<rparr>)) (\<lambda>_.
       if obs = [] then
         seq (logger_call ERROR No_observer_started) (\<lambda>_.
         seq (call (raises env Show_error_notification)) (\<lambda>_.
         return_stmt 1))
       else
         seq (logger_call INFO Initialising_ui) (\<lambda>_.
         seq (call (raises env TrayApp_init)) (\<lambda>_.
         seq (assign (\<lambda>s. s\<lparr>tray_icon := setup_tray env\<rparr>)) (\<lambda>_.
         seq (if \<not> setup_tray env then logger_call WARNING Tray_unavailable else skip) (\<lambda>_.
         seq (call (raises env Thread_start)) (\<lambda>_.
         seq (logger_call INFO (System_started (length obs))) (\<lambda>_.
         call (raises env Show_startup_notification))))))))))))))))))"

text \<open>
  \<^verbatim>\<open>while RUNNING: time.sleep(1)\<close>. The loop ends when a signal has cleared
  \<open>RUNNING\<close> or \<open>sleep\<close> raises; with quiet ticks only it runs for ever and the
  result is \<open>None\<close>.
\<close>

partial_function (option) console_loop ::
  "(nat \<Rightarrow> tick) \<Rightarrow> nat \<Rightarrow> main_state \<Rightarrow> (unit completion \<times> main_state) option" where
  "console_loop tk i s =
     (if \<not> RUNNING s then Some (Normal (), s)
      else (case tk i of
              Quiet \<Rightarrow> console_loop tk (Suc i) s
            | Signal signum \<Rightarrow>
                (case signal_handler signum s of
                   (Normal u, s') \<Rightarrow> console_loop tk (Suc i) s'
                 | (Return n, s') \<Rightarrow> Some (Return n, s')
                 | (Raise e, s') \<Rightarrow> Some (Raise e, s'))
            | Interrupt e \<Rightarrow> Some (Raise e, s)))"

text \<open>The two ways of waiting, the second with its own \<open>except KeyboardInterrupt\<close>.\<close>

definition wait :: "main_environment \<Rightarrow> main_state \<Rightarrow> (unit completion \<times> main_state) option" where
  "wait env s =
     (if tray_icon s then
        (case logger_call INFO Tray_mode s of
           (Normal u, s1) \<Rightarrow> tray_run env s1
         | (c, s1) \<Rightarrow> Some (c, s1))
      else
        (case logger_call INFO Console_mode s of
           (Normal u, s1) \<Rightarrow>
             (case console_loop (ticks env) 0 s1 of
                None \<Rightarrow> None
              | Some (Raise KeyboardInterrupt, s2) \<Rightarrow> Some (logger_call INFO Ctrl_c_received s2)
              | Some (c, s2) \<Rightarrow> Some (c, s2))
         | (c, s1) \<Rightarrow> Some (c, s1)))"

definition try_body :: "main_environment \<Rightarrow> main_state \<Rightarrow> (unit completion \<times> main_state) option" where
  "try_body env s =
     (case startup env s of
        (Normal u, s1) \<Rightarrow> wait env s1
      | (c, s1) \<Rightarrow> Some (c, s1))"

text \<open>
  \<^verbatim>\<open>except KeyboardInterrupt: ...\<close> and \<^verbatim>\<open>except Exception as e: ...; return 1\<close>.
  No clause catches \<open>SystemExit\<close>.
\<close>

definition handlers :: "main_environment \<Rightarrow> unit completion \<times> main_state \<Rightarrow> unit completion \<times> main_state" where
  "handlers env r =
     (case r of
        (Raise KeyboardInterrupt, s) \<Rightarrow> logger_call INFO User_interrupt s
      | (Raise (Exception e), s) \<Rightarrow>
          seq (logger_call ERROR (Critical_error e)) (\<lambda>_.
          seq (call (raises env Show_error_notification)) (\<lambda>_.
          return_stmt 1)) s
      | (c, s) \<Rightarrow> (c, s))"

text \<open>What a call of \<open>main\<close> ends with.\<close>

datatype result = Returned int | Returned_None | Raised base_exception

text \<open>
  The \<open>finally\<close> block, run on the completion \<open>pending\<close> of what came before. Its own
  \<open>return\<close> or exception replaces the pending completion; only if the block ended
  normally would the pending one take effect. An exception comes out of the block
  when the logger is unset, or when \<open>stop\<close> or \<open>join\<close> of an observer raises outside
  \<open>Exception\<close>.
\<close>

definition finally_body :: "main_environment \<Rightarrow> unit stmt" where
  "finally_body env =
     seq (logger_call INFO Shutting_down) (\<lambda>_.
     seq (assign (\<lambda>s. s\<lparr>RUNNING := False\<rparr>)) (\<lambda>_.
     seq (\<lambda>s. case observers s of
                 None \<Rightarrow> skip s
               | Some obs \<Rightarrow> cleanup_observers (world env) obs s) (\<lambda>_.
     seq (logger_call INFO System_stopped) (\<lambda>_.
     return_stmt 0))))"

definition finally_block :: "main_environment \<Rightarrow> unit completion \<times> main_state \<Rightarrow> result \<times> main_state" where
  "finally_block env r =
     (case r of (pending, s) \<Rightarrow>
        (case finally_body env s of
           (Return n, s') \<Rightarrow> (Returned n, s')
         | (Raise e, s') \<Rightarrow> (Raised e, s')
         | (Normal u, s') \<Rightarrow>
             (case pending of
                Normal v \<Rightarrow> (Returned_None, s')
              | Return n \<Rightarrow> (Returned n, s')
              | Raise e \<Rightarrow> (Raised e, s'))))"

definition main :: "main_environment \<Rightarrow> main_state \<Rightarrow> (result \<times> main_state) option" where
  "main env s =
     (case try_body env s of
        None \<Rightarrow> None
      | Some r \<Rightarrow> Some (finally_block env (handlers env r)))"

text \<open>The state in which the interpreter calls \<open>main\<close>: \<open>logger = None\<close>, \<open>RUNNING = True\<close>.\<close>

definition initial_state :: main_state where
  "initial_state =
     \<lparr>logger = None, RUNNING = True, observers = None, tray_icon = False, records = []\<rparr>"

section \<open>Predicates on runs of \<open>main\<close>\<close>

text \<open>The module logger has been set.\<close>

definition logger_set :: "main_state \<Rightarrow> bool" where
  "logger_set s = (case logger s of None \<Rightarrow> False | Some lg \<Rightarrow> True)"

text \<open>
  From a state with \<open>P\<close>, the statement \<open>m\<close> ends normally in a state with \<open>N\<close> of its
  value, or with a \<open>return\<close> or an exception in a state with \<open>A\<close>.
\<close>

definition ends_in ::
  "(main_state \<Rightarrow> bool) \<Rightarrow> 'a stmt \<Rightarrow> ('a \<Rightarrow> main_state \<Rightarrow> bool) \<Rightarrow> (main_state \<Rightarrow> bool) \<Rightarrow> bool" where
  "ends_in P m N A =
     (\<forall>s. P s \<longrightarrow>
        (case m s of
           (Normal a, s') \<Rightarrow> N a s'
         | (Return n, s') \<Rightarrow> A s'
         | (Raise e, s') \<Rightarrow> A s'))"

text \<open>\<open>setup_logging\<close> returns a logger: nothing outside \<open>Exception\<close> comes out of its
  \<open>try\<close> body, and nothing at all out of its fallback.\<close>

definition logging_ready :: "main_environment \<Rightarrow> bool" where
  "logging_ready env =
     (case logging_setup env of
        None \<Rightarrow> True
      | Some (Exception e) \<Rightarrow> (case logging_fallback env of None \<Rightarrow> True | Some e' \<Rightarrow> False)
      | Some e \<Rightarrow> False)"

text \<open>\<open>stop\<close> and \<open>join\<close> of the observers raise nothing outside \<open>Exception\<close>.\<close>

definition stops_within_Exception :: "environment \<Rightarrow> bool" where
  "stops_within_Exception env =
     (\<forall>p. case observer_stop env p of
            None \<Rightarrow> True
          | Some (Exception e) \<Rightarrow> True
          | Some e \<Rightarrow> False)"

section \<open>\<open>TrayApp.quit_app\<close> (ui/tray_app.py)\<close>

text \<open>
  What \<open>quit_app\<close> can reach: the module \<open>main\<close> with its globals, the attribute
  \<open>RUNNING\<close> of the module \<open>config.settings\<close> (\<open>None\<close> while the module has no such
  attribute), the \<open>TrayApp\<close> instance, and the records of the logger of
  \<open>ui.tray_app\<close>.
\<close>

record tray_app =
  icon_set :: bool
  icon_stopped :: bool
  running :: bool

record process =
  main_module :: main_state
  settings_RUNNING :: "bool option"
  app :: tray_app
  tray_records :: "log_record list"

text \<open>The three calls of \<open>quit_app\<close> that can raise.\<close>

record quit_environment =
  import_settings :: "base_exception option"
  icon_stop :: "base_exception option"
  show_shutdown_notification :: "base_exception option"

text \<open>
  \<^verbatim>\<open>except Exception as e: logger.error(...)\<close>; any other exception leaves
  \<open>quit_app\<close>.
\<close>

definition quit_except :: "base_exception \<Rightarrow> process \<Rightarrow> base_exception option \<times> process" where
  "quit_except e p =
     (case e of
        Exception x \<Rightarrow> (None, p\<lparr>tray_records := tray_records p @ [(ERROR, Quit_failed x)]\<rparr>)
      | KeyboardInterrupt \<Rightarrow> (Some e, p)
      | SystemExit \<Rightarrow> (Some e, p))"

text \<open>
  The \<open>try\<close> body in order: the log record, \<^verbatim>\<open>import config.settings\<close>,
  \<^verbatim>\<open>config.settings.RUNNING = False\<close>, \<^verbatim>\<open>self.running = False\<close>,
  \<^verbatim>\<open>if self.icon: self.icon.stop()\<close>, the shutdown notification. The result is the
  exception that leaves the method, if any, and the new state.
\<close>

definition quit_app :: "quit_environment \<Rightarrow> process \<Rightarrow> base_exception option \<times> process" where
  "quit_app env p =
     (let p0 = p\<lparr>tray_records := tray_records p @ [(INFO, Quit_requested)]\<rparr>
      in case import_settings env of
           Some e \<Rightarrow> quit_except e p0
         | None \<Rightarrow>
             (let p1 = p0\<lparr>settings_RUNNING := Some False\<rparr>;
                  p2 = p1\<lparr>app := (app p1)\<lparr>running := False\<rparr>\<rparr>
              in if icon_set (app p2) then
                   (case icon_stop env of
                      Some e \<Rightarrow> quit_except e p2
                    | None \<Rightarrow>
                        (let p3 = p2\<lparr>app := (app p2)\<lparr>icon_stopped := True\<rparr>\<rparr>
                         in case show_shutdown_notification env of
                              Some e \<Rightarrow> quit_except e p3
                            | None \<Rightarrow> (None, p3)))
                 else
                   (case show_shutdown_notification env of
                      Some e \<Rightarrow> quit_except e p2
                    | None \<Rightarrow> (None, p2))))"

text \<open>A process with a tray icon, before the user picks the exit entry of the menu.\<close>

definition sample_process :: process where
  "sample_process =
     \<lparr>main_module = initial_state\<lparr>logger := Some Rotating_file_logger\<rparr>,
      settings_RUNNING = None,
      app = \<lparr>icon_set = True, icon_stopped = False, running = True\<rparr>,
      tray_records = []\<rparr>"

definition quiet_quit :: quit_environment where
  "quiet_quit =
     \<lparr>import_settings = None, icon_stop = None, show_shutdown_notification = None\<rparr>"

section \<open>Sample runs\<close>

text \<open>
  Three environments over the sample installation, all without a tray: one where
  everything works and SIGINT arrives during the third sleep of the console loop, one
  where \<open>get_watch_paths\<close> raises so that validation fails, and one where Ctrl+C
  interrupts \<open>setup_logging\<close>, before \<open>logger\<close> is assigned and before
  \<open>signal.signal\<close> has replaced the default handler of SIGINT.
\<close>

definition console_environment :: main_environment where
  "console_environment =
     \<lparr>world = sample_environment,
      logging_setup = None,
      logging_fallback = None,
      raises = (\<lambda>site. None),
      pystray_available = False,
      create_tray_icon = False,
      pystray_Icon = None,
      icon_run = Some None,
      ticks = (\<lambda>i. if i = 2 then Signal 2 else Quiet)\<rparr>"

definition failing_validation_environment :: main_environment where
  "failing_validation_environment =
     console_environment\<lparr>world := sample_environment\<lparr>get_watch_paths := Inl ImportError\<rparr>\<rparr>"

definition interrupted_environment :: main_environment where
  "interrupted_environment = console_environment\<lparr>logging_setup := Some KeyboardInterrupt\<rparr>"

section \<open>The copy action\<close>

text \<open>
  Modelled from the spec: the copy of a matching file into the destination directory,
  done by the event handler of \<open>core\<close>, which is not among the sources. Sections 4.4
  and 5: the file keeps its name; if a file of that name is already there, nothing is
  overwritten, a disambiguating suffix (the timestamp) is appended and a warning is
  logged; a collision of the suffixed name is retried. The retry here takes the
  timestamp and the numbers after it in turn, one try for each file in the directory
  and one more. A directory is the list of its files, name and content.
\<close>

type_synonym bytes = "nat list"

type_synonym directory = "(pystr \<times> bytes) list"

fun decimal :: "nat \<Rightarrow> pystr" where
  "decimal n = (if n < 10 then [48 + n] else decimal (n div 10) @ [48 + n mod 10])"

declare decimal.simps [simp del]

definition candidate :: "pystr \<Rightarrow> nat \<Rightarrow> nat \<Rightarrow> pystr" where
  "candidate name timestamp k = name @ [95] @ decimal (timestamp + k)"

definition free_name :: "directory \<Rightarrow> pystr \<Rightarrow> nat \<Rightarrow> pystr option" where
  "free_name dest name timestamp =
     find (\<lambda>n. map_of dest n = None)
          (map (candidate name timestamp) [0..<Suc (length dest)])"

datatype copy_error = CopyFailed

record copy_action =
  destination_path :: pystr
  destination_after :: directory
  conflict_warning :: bool

definition copy_file :: "directory \<Rightarrow> pystr \<Rightarrow> bytes \<Rightarrow> nat \<Rightarrow> copy_error + copy_action" where
  "copy_file dest name content timestamp =
     (case map_of dest name of
        None \<Rightarrow>
          Inr \<lparr>destination_path = name, destination_after = (name, content) # dest,
               conflict_warning = False\<rparr>
      | Some existing \<Rightarrow>
          (case free_name dest name timestamp of
             None \<Rightarrow> Inl CopyFailed
           | Some path \<Rightarrow>
               Inr \<lparr>destination_path = path, destination_after = (path, content) # dest,
                    conflict_warning = True\<rparr>))"

text \<open>The number a decimal numeral stands for.\<close>

definition undecimal :: "pystr \<Rightarrow> nat" where
  "undecimal s = foldl (\<lambda>a c. 10 * a + (c - 48)) 0 s"

text \<open>
  A destination that already holds \<open>report.xlsx\<close> and, from an earlier conflict, the
  copy suffixed with the timestamp 1755252000.
\<close>

definition report_xlsx :: pystr where
  "report_xlsx = ascii ''report.xlsx''"

definition sample_destination :: directory where
  "sample_destination =
     [(ascii ''report.xlsx'', [80, 75, 3, 4]), (ascii ''report.xlsx_1755252000'', [1])]"

chapter \<open>Properties\<close>

section \<open>Strings\<close>

lemma py_any_iff: "py_any bs \<longleftrightarrow> True \<in> set bs"
  by (induction bs) auto

lemma py_any_map_iff: "py_any (map f xs) \<longleftrightarrow> (\<exists>x \<in> set xs. f x)"
  by (induction xs) auto

lemma startswith_iff_take: "startswith s p \<longleftrightarrow> take (length p) s = p"
  by (induction s p rule: startswith.induct) auto

lemma startswith_append: "startswith (p @ t) p"
  by (induction p) auto

lemma startswith_iff: "startswith s p \<longleftrightarrow> (\<exists>t. s = p @ t)"
proof
  assume "startswith s p"
  then have "take (length p) s = p"
    by (simp add: startswith_iff_take)
  then have "s = p @ drop (length p) s"
    by (metis append_take_drop_id)
  then show "\<exists>t. s = p @ t" ..
next
  assume "\<exists>t. s = p @ t"
  then show "startswith s p"
    by (auto simp: startswith_append)
qed

lemma endswith_iff: "endswith s p \<longleftrightarrow> (\<exists>t. s = t @ p)"
proof -
  have "endswith s p \<longleftrightarrow> (\<exists>t. rev s = rev p @ t)"
    by (simp add: endswith_def startswith_iff)
  also have "\<dots> \<longleftrightarrow> (\<exists>t. s = t @ p)"
  proof
    assume "\<exists>t. rev s = rev p @ t"
    then obtain t where "rev s = rev p @ t" ..
    then have "rev (rev s) = rev (rev p @ t)"
      by simp
    then have "s = rev t @ p"
      by simp
    then show "\<exists>t. s = t @ p" ..
  next
    assume "\<exists>t. s = t @ p"
    then obtain t where "s = t @ p" ..
    then have "rev s = rev p @ rev t"
      by simp
    then show "\<exists>t. rev s = rev p @ t" ..
  qed
  finally show ?thesis .
qed

lemma endswith_Nil: "endswith s []"
  by (simp add: endswith_def)

lemma endswith_Nil_left: "\<not> endswith [] (q @ [x])"
  by (simp add: endswith_def)

lemma endswith_snoc: "endswith (s @ [c]) (q @ [x]) \<longleftrightarrow> c = x \<and> endswith s q"
  by (simp add: endswith_def)

lemma endswith_Cons: "endswith (a # s) p \<longleftrightarrow> p = a # s \<or> endswith s p"
  unfolding endswith_iff by (auto simp: Cons_eq_append_conv)

lemma startswith_set: "startswith s x \<Longrightarrow> set x \<subseteq> set s"
  by (induction s x rule: startswith.induct) auto

lemma contains_set: "contains x s \<Longrightarrow> set x \<subseteq> set s"
proof (induction s)
  case Nil
  then show ?case by simp
next
  case (Cons a s)
  from Cons.prems have "startswith (a # s) x \<or> contains x s" by simp
  then show ?case
  proof
    assume "startswith (a # s) x"
    then show ?thesis by (rule startswith_set)
  next
    assume "contains x s"
    then have "set x \<subseteq> set s" by (rule Cons.IH)
    then show ?thesis by auto
  qed
qed

section \<open>The normalizer\<close>

lemma strip_nil: "strip_trailing_underscores [] = []"
  by (simp add: strip_trailing_underscores_def)

lemma strip_snoc:
  "strip_trailing_underscores (s @ [c]) =
     (if c = 95 then strip_trailing_underscores s else s @ [c])"
  by (simp add: strip_trailing_underscores_def)

lemma strip_idem:
  "strip_trailing_underscores (strip_trailing_underscores s) = strip_trailing_underscores s"
  by (induction s rule: rev_induct) (auto simp: strip_nil strip_snoc)

lemma collapse_head: "\<exists>ys. collapse_spaces (b # cs) = b # ys"
  by (induction cs arbitrary: b) auto

lemma collapse_no_double: "no_double_space (collapse_spaces s)"
proof (induction s rule: collapse_spaces.induct)
  case (1 a b cs)
  obtain ys where ys: "collapse_spaces (b # cs) = b # ys"
    using collapse_head by blast
  with 1 show ?case
    by auto
qed auto

lemma collapse_fix: "no_double_space s \<Longrightarrow> collapse_spaces s = s"
  by (induction s rule: collapse_spaces.induct) auto

lemma no_double_butlast: "no_double_space (s @ [c]) \<Longrightarrow> no_double_space s"
  by (induction s rule: no_double_space.induct) auto

lemma no_double_strip: "no_double_space s \<Longrightarrow> no_double_space (strip_trailing_underscores s)"
  by (induction s rule: rev_induct) (auto simp: strip_nil strip_snoc dest: no_double_butlast)

text \<open>The cleanup changes nothing in a name it has cleaned, and brings in no code point.\<close>

lemma cleanup_idem: "cleanup (cleanup s) = cleanup s"
proof -
  have "no_double_space (strip_trailing_underscores (collapse_spaces s))"
    by (rule no_double_strip) (rule collapse_no_double)
  then show ?thesis
    by (simp add: cleanup_def collapse_fix strip_idem)
qed

lemma set_collapse: "set (collapse_spaces s) \<subseteq> set s"
  by (induction s rule: collapse_spaces.induct) auto

lemma set_strip: "set (strip_trailing_underscores s) \<subseteq> set s"
  unfolding strip_trailing_underscores_def using set_dropWhileD by fastforce

lemma set_cleanup: "set (cleanup s) \<subseteq> set s"
  unfolding cleanup_def using set_collapse set_strip by blast

text \<open>Folding in one direction: a normalized name is made of code points that the
  folding leaves alone, so folding it again changes nothing.\<close>

lemma fold_fixed:
  "\<forall>d \<in> set t. map alias (case_fold d) = [d] \<Longrightarrow> fold_characters case_fold alias t = t"
  by (induction t) (simp_all add: fold_characters_def)

lemma set_fold:
  assumes "one_direction case_fold alias"
  shows "\<forall>d \<in> set (fold_characters case_fold alias s). map alias (case_fold d) = [d]"
  using assms by (auto simp: fold_characters_def one_direction_def)

lemma normalized_fixed:
  assumes "one_direction case_fold alias"
  shows "\<forall>d \<in> set (normalize_filename_for_comparison case_fold alias s).
           map alias (case_fold d) = [d]"
  using set_fold [OF assms, of s] set_cleanup
  unfolding normalize_filename_for_comparison_def by blast

lemma normalize_idem:
  assumes "one_direction case_fold alias"
  shows "normalize_filename_for_comparison case_fold alias
           (normalize_filename_for_comparison case_fold alias x) =
         normalize_filename_for_comparison case_fold alias x"
proof -
  have "fold_characters case_fold alias (normalize_filename_for_comparison case_fold alias x) =
        normalize_filename_for_comparison case_fold alias x"
    by (rule fold_fixed) (rule normalized_fixed [OF assms])
  then show ?thesis
    by (simp add: normalize_filename_for_comparison_def cleanup_idem)
qed

text \<open>The sample case folding goes in one direction, with the empty table and with the
  table of section 4.1.\<close>

lemma sample_case_fold_folded: "e \<in> set (sample_case_fold c) \<Longrightarrow> folded e"
  by (auto simp: sample_case_fold_def folded_def split: if_splits)

lemma folded_fixed: "folded e \<Longrightarrow> sample_case_fold e = [e]"
  by (auto simp: sample_case_fold_def folded_def)

lemma alias_table_folded: "folded e \<Longrightarrow> folded (alias_table e)"
  by (auto simp: alias_table_def folded_def)

lemma alias_table_idem: "alias_table (alias_table e) = alias_table e"
  by (simp add: alias_table_def)

lemma one_direction_spec: "one_direction sample_case_fold alias_table"
  unfolding one_direction_def
proof (intro allI ballI)
  fix c d
  assume "d \<in> set (map alias_table (sample_case_fold c))"
  then obtain e where e: "e \<in> set (sample_case_fold c)" "d = alias_table e"
    by auto
  from e(1) have "folded e" by (rule sample_case_fold_folded)
  then have "folded d" unfolding e(2) by (rule alias_table_folded)
  then have "sample_case_fold d = [d]" by (rule folded_fixed)
  moreover have "alias_table d = d" unfolding e(2) by (rule alias_table_idem)
  ultimately show "map alias_table (sample_case_fold d) = [d]" by simp
qed

lemma one_direction_sample: "one_direction sample_case_fold no_alias"
  unfolding one_direction_def
proof (intro allI ballI)
  fix c d
  assume "d \<in> set (map no_alias (sample_case_fold c))"
  then have "d \<in> set (sample_case_fold c)"
    by (simp add: no_alias_def[abs_def])
  then have "folded d" by (rule sample_case_fold_folded)
  then have "sample_case_fold d = [d]" by (rule folded_fixed)
  then show "map no_alias (sample_case_fold d) = [d]" by (simp add: no_alias_def)
qed

lemma sample_normalizer_idem: "sample_normalizer (sample_normalizer x) = sample_normalizer x"
  unfolding sample_normalizer_def by (rule normalize_idem) (rule one_direction_sample)


text \<open>
  A literal with a code point that the folding changes occurs in no normalized name.
  With the table of section 4.1 this holds of the three Cyrillic literals of the
  conditions of test_conditions.py, each of which has a letter of the table: the
  balances report with the Cyrillic name does not match on a Friday under that table,
  and does under the empty one.
\<close>

lemma folded_away_never_occurs:
  assumes "one_direction case_fold alias" and "map alias (case_fold d) \<noteq> [d]" and "d \<in> set x"
  shows "\<not> contains x (normalize_filename_for_comparison case_fold alias name)"
  using normalized_fixed [OF assms(1), of name] assms(2,3) contains_set by blast

lemma cyrillic_literals_under_alias_table:
  "\<not> startswith (spec_normalizer name) norm_cyr"
  "\<not> contains zalishki_cyr (spec_normalizer name)"
  "\<not> contains aktivi_cyr (spec_normalizer name)"
proof -
  have a: "map alias_table (sample_case_fold 1072) \<noteq> [1072]"
    and r: "map alias_table (sample_case_fold 1088) \<noteq> [1088]"
    by (simp_all add: sample_case_fold_def alias_table_def)
  have "1072 \<in> set zalishki_cyr" "1072 \<in> set aktivi_cyr" "1088 \<in> set norm_cyr"
    by (simp_all add: zalishki_cyr_def aktivi_cyr_def norm_cyr_def)
  with a r show "\<not> contains zalishki_cyr (spec_normalizer name)"
    "\<not> contains aktivi_cyr (spec_normalizer name)"
    unfolding spec_normalizer_def
    using folded_away_never_occurs [OF one_direction_spec] by blast+
  have "1088 \<notin> set (spec_normalizer name)"
    using normalized_fixed [OF one_direction_spec, of name] r
    unfolding spec_normalizer_def by blast
  moreover have "1088 \<in> set norm_cyr"
    by (simp add: norm_cyr_def)
  ultimately show "\<not> startswith (spec_normalizer name) norm_cyr"
    using startswith_set by blast
qed

text \<open>The sample names, normalized.\<close>

lemmas normalizer_defs =
  sample_normalizer_def spec_normalizer_def normalize_filename_for_comparison_def cleanup_def
  fold_characters_def sample_case_fold_def no_alias_def alias_table_def
  strip_trailing_underscores_def



lemma normalize_file_sr: "sample_normalizer file_sr = ascii ''sr_2025.txt''"
  by (simp add: normalizer_defs file_sr_def ascii_def)

lemma normalize_file_zalishki:
  "sample_normalizer file_zalishki = ascii ''zalishki na rax vkl 15.08.xlsx''"
  by (simp add: normalizer_defs file_zalishki_def ascii_def)


lemma contains_prefix: "contains x (x @ t)"
proof (cases "x @ t")
  case Nil
  then show ?thesis by simp
next
  case (Cons c cs)
  have "startswith (x @ t) x"
    by (rule startswith_append)
  with Cons show ?thesis by simp
qed

text \<open>
  The sample normalizer and a suffix of dots and the letters \<open>x\<close>, \<open>l\<close>, \<open>s\<close>: folding
  lower-cases the end of the name, and the cleanup leaves it alone unless the name
  ends with an underscore.
\<close>

lemma fold_snoc:
  "fold_characters case_fold alias (r @ [c]) =
     fold_characters case_fold alias r @ map alias (case_fold c)"
  by (simp add: fold_characters_def)

lemma sample_fold_suffix:
  assumes "x = 46 \<or> x = 120 \<or> x = 108 \<or> x = 115"
  shows "\<exists>t d. map no_alias (sample_case_fold c) = t @ [d] \<and>
           (d = x \<longleftrightarrow> ascii_lower_cp c = x) \<and> (d = x \<longrightarrow> t = [])"
proof (cases "c = 304")
  case True
  with assms have "map no_alias (sample_case_fold c) = [105] @ [775] \<and>
           (775 = x \<longleftrightarrow> ascii_lower_cp c = x) \<and> (775 = x \<longrightarrow> [105::nat] = [])"
    by (auto simp: sample_case_fold_def no_alias_def ascii_lower_cp_def)
  then show ?thesis by blast
next
  case False
  then have "\<exists>d. sample_case_fold c = [d]"
    by (simp add: sample_case_fold_def)
  then obtain d where d: "sample_case_fold c = [d]" ..
  with False assms have "d = x \<longleftrightarrow> ascii_lower_cp c = x"
    by (auto simp: sample_case_fold_def ascii_lower_cp_def split: if_splits)
  with d have "map no_alias (sample_case_fold c) = [] @ [d] \<and>
           (d = x \<longleftrightarrow> ascii_lower_cp c = x) \<and> (d = x \<longrightarrow> ([]::nat list) = [])"
    by (simp add: no_alias_def)
  then show ?thesis by blast
qed

lemma sample_fold_last:
  "c \<noteq> 95 \<Longrightarrow> \<exists>t d. map no_alias (sample_case_fold c) = t @ [d] \<and> d \<noteq> 95"
  by (cases "c = 304") (auto simp: sample_case_fold_def no_alias_def)

lemma fold_endswith:
  assumes "set p \<subseteq> {46, 120, 108, 115}"
  shows "endswith (fold_characters sample_case_fold no_alias raw) p =
         endswith (map ascii_lower_cp raw) p"
  using assms
proof (induction p arbitrary: raw rule: rev_induct)
  case Nil
  show ?case by (simp add: endswith_Nil)
next
  case (snoc x q)
  note IH = snoc.IH
  from snoc.prems have x: "x = 46 \<or> x = 120 \<or> x = 108 \<or> x = 115"
    and q: "set q \<subseteq> {46, 120, 108, 115}"
    by auto
  show ?case
  proof (cases raw rule: rev_cases)
    case Nil
    then show ?thesis
      by (simp add: fold_characters_def endswith_Nil_left)
  next
    case (snoc r c)
    let ?f = "fold_characters sample_case_fold no_alias r"
    from sample_fold_suffix [OF x, of c] obtain t d where
      td: "map no_alias (sample_case_fold c) = t @ [d]"
        "(d = x) = (ascii_lower_cp c = x)" "d = x \<longrightarrow> t = []"
      by blast
    have "endswith ((?f @ t) @ [d]) (q @ [x]) \<longleftrightarrow> d = x \<and> endswith (?f @ t) q"
      by (rule endswith_snoc)
    also have "\<dots> \<longleftrightarrow> d = x \<and> endswith ?f q"
      using td(3) by auto
    also have "\<dots> \<longleftrightarrow> ascii_lower_cp c = x \<and> endswith (map ascii_lower_cp r) q"
      using td(2) IH [OF q, of r] by simp
    also have "\<dots> \<longleftrightarrow> endswith (map ascii_lower_cp r @ [ascii_lower_cp c]) (q @ [x])"
      by (simp add: endswith_snoc)
    finally show ?thesis
      by (simp add: snoc fold_snoc td(1))
  qed
qed

lemma fold_last:
  assumes "raw = [] \<or> last raw \<noteq> 95"
  shows "fold_characters sample_case_fold no_alias raw = [] \<or>
         last (fold_characters sample_case_fold no_alias raw) \<noteq> 95"
proof (cases raw rule: rev_cases)
  case Nil
  then show ?thesis by (simp add: fold_characters_def)
next
  case (snoc r c)
  with assms have "c \<noteq> 95" by simp
  from sample_fold_last [OF this] obtain t d where
    "map no_alias (sample_case_fold c) = t @ [d]" "d \<noteq> 95"
    by blast
  then show ?thesis
    by (simp add: snoc fold_snoc)
qed

lemma collapse_keeps_space: "32 \<in> set s \<Longrightarrow> 32 \<in> set (collapse_spaces s)"
proof (induction s rule: collapse_spaces.induct)
  case (1 a b cs)
  obtain ys where "collapse_spaces (b # cs) = b # ys"
    using collapse_head by blast
  with 1 show ?case by auto
qed auto

lemma no_space_no_double: "32 \<notin> set s \<Longrightarrow> no_double_space s"
  by (induction s rule: no_double_space.induct) auto

lemma collapse_eq_iff:
  assumes "32 \<notin> set p"
  shows "collapse_spaces s = p \<longleftrightarrow> s = p"
proof
  assume c: "collapse_spaces s = p"
  with assms have "32 \<notin> set s"
    using collapse_keeps_space by blast
  then have "collapse_spaces s = s"
    by (intro collapse_fix no_space_no_double)
  with c show "s = p" by simp
next
  assume "s = p"
  with assms show "collapse_spaces s = p"
    by (simp add: collapse_fix no_space_no_double)
qed

lemma collapse_endswith:
  assumes "32 \<notin> set p"
  shows "endswith (collapse_spaces s) p = endswith s p"
proof (induction s rule: collapse_spaces.induct)
  case (1 a b cs)
  have e: "endswith (a # b # cs) p \<longleftrightarrow> p = a # b # cs \<or> endswith (b # cs) p"
    by (rule endswith_Cons)
  show ?case
  proof (cases "a = 32 \<and> b = 32")
    case True
    with assms have "p \<noteq> a # b # cs" by auto
    with True 1 e show ?thesis
      by simp
  next
    case False
    have "a # collapse_spaces (b # cs) = p \<longleftrightarrow> a # b # cs = p"
      using collapse_eq_iff [OF assms, of "a # b # cs"] False by simp
    moreover have "endswith (a # collapse_spaces (b # cs)) p \<longleftrightarrow>
        p = a # collapse_spaces (b # cs) \<or> endswith (collapse_spaces (b # cs)) p"
      by (rule endswith_Cons)
    ultimately show ?thesis
      using False 1 e by auto
  qed
qed simp_all

lemma collapse_last:
  "s = [] \<or> last s \<noteq> 95 \<Longrightarrow> collapse_spaces s = [] \<or> last (collapse_spaces s) \<noteq> 95"
proof (induction s rule: collapse_spaces.induct)
  case (1 a b cs)
  obtain ys where "collapse_spaces (b # cs) = b # ys"
    using collapse_head by blast
  with 1 show ?case by (auto split: if_splits)
qed auto

lemma strip_fix: "s = [] \<or> last s \<noteq> 95 \<Longrightarrow> strip_trailing_underscores s = s"
  by (cases s rule: rev_cases) (simp_all add: strip_nil strip_snoc)

section \<open>The 01X condition\<close>

text \<open>
  The 01X condition itself: the normalized form of the name it is given starts with
  \<open>01x\<close>, and the name it is given ends with the code points of \<open>.xlsx\<close>.
\<close>

lemma cond_01x_iff:
  "cond_01x norm name \<longleftrightarrow>
     startswith (norm name) (ascii ''01x'') \<and> (\<exists>stem. name = stem @ ascii ''.xlsx'')"
  by (simp add: cond_01x_def endswith_iff)

text \<open>
  \<open>test_real_files\<close> gives the condition the normalized name, so both tests are made
  on the normalized name.
\<close>

lemma rule_matches_cond_01x:
  "rule_matches norm [cond_01x norm] filename \<longleftrightarrow>
     startswith (norm (norm filename)) (ascii ''01x'') \<and>
     endswith (norm filename) (ascii ''.xlsx'')"
  by (simp add: rule_matches_def cond_01x_def Let_def)



text \<open>
  The sample normalizer has the two properties the theorem asks for, at every raw name
  that does not end with an underscore. After a trailing underscore, which the cleanup
  strips, the normalized name can end with the suffix when the raw name does not; the
  code then tests the normalized name.
\<close>

lemma sample_normalizer_keeps_suffix:
  assumes "raw = [] \<or> last raw \<noteq> 95"
  shows "endswith (sample_normalizer raw) (ascii ''.xlsx'') = endswith_ci raw (ascii ''.xlsx'')"
proof -
  let ?p = "ascii ''.xlsx''"
  let ?f = "fold_characters sample_case_fold no_alias raw"
  have p: "set ?p \<subseteq> {46, 120, 108, 115}" "32 \<notin> set ?p" "map ascii_lower_cp ?p = ?p"
    by (simp_all add: ascii_def ascii_lower_cp_def)
  have "collapse_spaces ?f = [] \<or> last (collapse_spaces ?f) \<noteq> 95"
    by (rule collapse_last) (rule fold_last [OF assms])
  then have "cleanup ?f = collapse_spaces ?f"
    unfolding cleanup_def by (rule strip_fix)
  then have "endswith (sample_normalizer raw) ?p = endswith (collapse_spaces ?f) ?p"
    by (simp add: sample_normalizer_def normalize_filename_for_comparison_def)
  also have "\<dots> = endswith ?f ?p"
    by (rule collapse_endswith [OF p(2)])
  also have "\<dots> = endswith (map ascii_lower_cp raw) ?p"
    by (rule fold_endswith [OF p(1)])
  also have "\<dots> = endswith_ci raw ?p"
    by (simp add: endswith_ci_def p(3))
  finally show ?thesis .
qed

lemma suffix_behind_trailing_underscore:
  "endswith (sample_normalizer (ascii ''01x_b.xlsx_'')) (ascii ''.xlsx'') \<and>
   \<not> endswith_ci (ascii ''01x_b.xlsx_'') (ascii ''.xlsx'')"
  by (simp add: normalizer_defs endswith_ci_def endswith_def ascii_def ascii_lower_cp_def)

text \<open>
  Given a raw name directly, the lambda compares the code points of the suffix: the
  raw name \<open>01X_<balance>.XLSX\<close> is refused whatever the normalizer is.
\<close>

lemma cond_01x_on_raw_upper_suffix: "\<not> cond_01x norm file_01x_XLSX"
  by (simp add: cond_01x_def endswith_def ascii_def file_01x_XLSX_def)

section \<open>Day gating\<close>

text \<open>
  Claim C2. For every file name and every instant, the day-gated balances condition is
  false when the weekday of the instant is not Friday (index 4), whatever the substring
  test says, and on a Friday it equals the substring test: one of the two spellings
  occurs in the normalized name.
\<close>

theorem day_gated_zalishki:
  "(weekday now \<noteq> 4 \<longrightarrow> \<not> cond_zalishki norm now name) \<and>
   (weekday now = 4 \<longrightarrow>
      cond_zalishki norm now name =
        (contains zalishki_cyr (norm name) \<or> contains zalishki_lat (norm name)))"
  by (simp add: cond_zalishki_def any_in_normalized_def)

text \<open>
  The theorem at a balances report: it matches on Friday 2025-08-15 and does not on
  Wednesday 2025-08-13.
\<close>

theorem day_gated_zalishki_witness:
  "weekday friday = 4 \<and> cond_zalishki sample_normalizer friday file_zalishki \<and>
   weekday wednesday \<noteq> 4 \<and> \<not> cond_zalishki sample_normalizer wednesday file_zalishki"
proof -
  have f: "weekday friday = 4"
    by (simp add: weekday_def friday_def)
  have w: "weekday wednesday \<noteq> 4"
    by (simp add: weekday_def wednesday_def)
  have c: "contains zalishki_lat (sample_normalizer file_zalishki)"
    unfolding normalize_file_zalishki by (simp add: zalishki_lat_def ascii_def)
  from f w c day_gated_zalishki [of friday sample_normalizer file_zalishki]
    day_gated_zalishki [of wednesday sample_normalizer file_zalishki]
  show ?thesis
    by simp
qed

section \<open>Rule matching\<close>

text \<open>
  Claim C3. A file matches a rule exactly when at least one condition of the list is
  true on the normalized name, and a match is kept when a further condition is put
  into the list at any place.
\<close>

theorem rule_matches_or_monotone:
  "(rule_matches norm L f \<longleftrightarrow> (\<exists>c \<in> set L. c (norm f))) \<and>
   (rule_matches norm (L1 @ L2) f \<longrightarrow> rule_matches norm (L1 @ c # L2) f)"
proof -
  have iff: "rule_matches norm K f \<longleftrightarrow> (\<exists>c \<in> set K. c (norm f))" for K
    by (simp add: rule_matches_def py_any_map_iff)
  show ?thesis
    unfolding iff by auto
qed

text \<open>
  The theorem at an SR file: it matches the rule of the 01X and SR conditions, and
  still does when the normatives condition is put between the two.
\<close>

theorem rule_matches_or_monotone_witness:
  "rule_matches sample_normalizer ([cond_01x sample_normalizer] @ [cond_sr sample_normalizer]) file_sr \<and>
   rule_matches sample_normalizer ([cond_01x sample_normalizer] @ cond_norm sample_normalizer # [cond_sr sample_normalizer]) file_sr"
proof -
  have "cond_sr sample_normalizer (sample_normalizer file_sr)"
    by (simp add: cond_sr_def sample_normalizer_idem) (simp add: normalize_file_sr ascii_def)
  then have m: "rule_matches sample_normalizer ([cond_01x sample_normalizer] @ [cond_sr sample_normalizer]) file_sr"
    using rule_matches_or_monotone [of sample_normalizer "[cond_01x sample_normalizer] @ [cond_sr sample_normalizer]" file_sr]
    by simp
  with rule_matches_or_monotone [where norm = sample_normalizer and ?L1.0 = "[cond_01x sample_normalizer]"
      and ?L2.0 = "[cond_sr sample_normalizer]" and f = file_sr and c = "cond_norm sample_normalizer"]
  show ?thesis
    by blast
qed

section \<open>Idempotence\<close>




section \<open>The diagnostic condition\<close>

text \<open>
  When \<open>print\<close> succeeds, the value of the diagnostic assets condition is the boolean
  of the pure substring test it wraps: \<open>print\<close> returns \<open>None\<close>, so \<open>or\<close> yields its
  second operand, and the only effect is the text on standard output.
\<close>

lemma cond_aktivi_when_print_succeeds:
  assumes "\<not> closed out" and "list_all (encodable out) (aktivi_message norm name @ [10])"
    and "write_error out = None"
  shows "cond_aktivi norm name out =
           Inr (PBool (cond_aktivi_pure norm name),
                out\<lparr>written := written out @ aktivi_message norm name @ [10]\<rparr>)"
  using assms by (simp add: cond_aktivi_def py_print_def cond_aktivi_pure_def)

lemma name_in_aktivi_message: "set name \<subseteq> set (aktivi_message norm name)"
  by (auto simp: aktivi_message_def)

text \<open>
  Claim C7 fails in the code. A name with a code point that the encoding of standard
  output lacks makes \<open>print\<close> raise \<open>UnicodeEncodeError\<close>: the condition has no value,
  whatever the substring test says, and the exception leaves \<open>any(...)\<close> and
  \<open>test_real_files\<close>, which have no \<open>try\<close>.
\<close>

theorem cond_aktivi_raises_on_unencodable_name:
  assumes "\<not> closed out" and "c \<in> set name" and "\<not> encodable out c"
  shows "cond_aktivi norm name out = Inl UnicodeEncodeError"
proof -
  from assms(2) have "c \<in> set (aktivi_message norm name @ [10])"
    using name_in_aktivi_message [of name norm] by auto
  with assms(3) have "\<not> list_all (encodable out) (aktivi_message norm name @ [10])"
    unfolding list_all_iff by blast
  with assms(1) show ?thesis
    by (simp add: cond_aktivi_def py_print_def)
qed

text \<open>
  The theorem at the assets report whose name has a lone surrogate, on a UTF-8
  standard output: the substring test holds, and the condition raises.
\<close>

theorem cond_aktivi_raises_on_unencodable_name_witness:
  "\<not> closed utf8_stdout \<and> 56575 \<in> set file_aktivi_surrogate \<and> \<not> encodable utf8_stdout 56575 \<and>
   cond_aktivi_pure sample_normalizer file_aktivi_surrogate \<and>
   cond_aktivi sample_normalizer file_aktivi_surrogate utf8_stdout = Inl UnicodeEncodeError"
proof -
  have a: "\<not> closed utf8_stdout" and b: "\<not> encodable utf8_stdout 56575"
    by (simp_all add: utf8_stdout_def)
  have c: "56575 \<in> set file_aktivi_surrogate"
    by (simp add: file_aktivi_surrogate_def)
  have "sample_normalizer file_aktivi_surrogate = aktivi_lat @ [95, 56575, 46, 120, 108, 115, 120]"
    by (simp add: normalizer_defs file_aktivi_surrogate_def aktivi_lat_def ascii_def)
  then have "contains aktivi_lat (sample_normalizer file_aktivi_surrogate)"
    by (simp add: contains_prefix)
  then have d: "cond_aktivi_pure sample_normalizer file_aktivi_surrogate"
    by (simp add: cond_aktivi_pure_def any_in_normalized_def)
  from cond_aktivi_raises_on_unencodable_name [OF a c b, of sample_normalizer] a b c d
  show ?thesis
    by simp
qed

section \<open>Creating the observers\<close>

lemma activate_configs:
  "map snd (fst (activate env i c (obs, lg))) =
     map snd obs @ (if activates env c then [c] else [])"
  by (auto simp: activate_def activates_def Let_def split: option.splits sum.splits bool.splits)

lemma activate_log: "\<exists>r. snd (activate env i c (obs, lg)) = lg @ [r]"
  by (auto simp: activate_def Let_def split: option.splits sum.splits bool.splits)

lemma activate_missing:
  "source_missing env c \<Longrightarrow>
   \<exists>p. watch_dir c = Some p \<and>
       snd (activate env i c (obs, lg)) = lg @ [(WARNING, Skipping_missing_directory p)]"
  by (auto simp: activate_def source_missing_def Let_def split: option.splits sum.splits bool.splits)

lemma activate_watched:
  "\<forall>(ob, c') \<in> set obs. watch_dir c' = Some (watched ob) \<and> path_exists env (watched ob) = Inr True \<Longrightarrow>
   \<forall>(ob, c') \<in> set (fst (activate env i c (obs, lg))).
      watch_dir c' = Some (watched ob) \<and> path_exists env (watched ob) = Inr True"
  by (auto simp: activate_def Let_def split: option.splits sum.splits bool.splits)

lemma loop_configs:
  "map snd (fst (create_observers_loop env i cs acc)) =
     map snd (fst acc) @ filter (activates env) cs"
proof (induction cs arbitrary: i acc)
  case Nil
  then show ?case by simp
next
  case (Cons c cs)
  obtain obs lg where acc: "acc = (obs, lg)" by (cases acc)
  show ?case
    by (simp add: Cons.IH acc activate_configs)
qed

lemma loop_watched:
  "\<forall>(ob, c') \<in> set (fst acc). watch_dir c' = Some (watched ob) \<and> path_exists env (watched ob) = Inr True \<Longrightarrow>
   \<forall>(ob, c') \<in> set (fst (create_observers_loop env i cs acc)).
      watch_dir c' = Some (watched ob) \<and> path_exists env (watched ob) = Inr True"
proof (induction cs arbitrary: i acc)
  case Nil
  then show ?case by simp
next
  case (Cons c cs)
  obtain obs lg where acc: "acc = (obs, lg)" by (cases acc)
  from Cons.prems have "\<forall>(ob, c') \<in> set (fst (activate env i c acc)).
      watch_dir c' = Some (watched ob) \<and> path_exists env (watched ob) = Inr True"
    unfolding acc using activate_watched [of obs env i c lg] by simp
  then show ?case
    using Cons.IH by simp
qed

lemma loop_log_mono: "set (snd acc) \<subseteq> set (snd (create_observers_loop env i cs acc))"
proof (induction cs arbitrary: i acc)
  case Nil
  then show ?case by simp
next
  case (Cons c cs)
  obtain obs lg where acc: "acc = (obs, lg)" by (cases acc)
  obtain r where "snd (activate env i c (obs, lg)) = lg @ [r]"
    using activate_log by blast
  then have "set (snd acc) \<subseteq> set (snd (activate env i c acc))"
    by (auto simp: acc)
  also have "\<dots> \<subseteq> set (snd (create_observers_loop env (Suc i) cs (activate env i c acc)))"
    by (rule Cons.IH)
  finally show ?case by simp
qed

lemma loop_missing:
  "c \<in> set cs \<Longrightarrow> source_missing env c \<Longrightarrow>
   \<exists>p. watch_dir c = Some p \<and>
       (WARNING, Skipping_missing_directory p) \<in> set (snd (create_observers_loop env i cs acc))"
proof (induction cs arbitrary: i acc)
  case Nil
  then show ?case by simp
next
  case (Cons d cs)
  obtain obs lg where acc: "acc = (obs, lg)" by (cases acc)
  show ?case
  proof (cases "c = d")
    case True
    with Cons.prems obtain p where p: "watch_dir c = Some p"
      "snd (activate env i d (obs, lg)) = lg @ [(WARNING, Skipping_missing_directory p)]"
      using activate_missing by blast
    then have "(WARNING, Skipping_missing_directory p) \<in> set (snd (activate env i d acc))"
      by (simp add: acc)
    then have "(WARNING, Skipping_missing_directory p)
        \<in> set (snd (create_observers_loop env (Suc i) cs (activate env i d acc)))"
      using loop_log_mono by blast
    with p(1) show ?thesis by auto
  next
    case False
    with Cons.prems have "c \<in> set cs" by simp
    from Cons.IH [OF this Cons.prems(2)] show ?thesis by simp
  qed
qed

lemma create_observers_fst:
  "fst (create_observers env) =
     fst (create_observers_loop env 0 (WATCH_CONFIGS env) ([], [(INFO, Creating_observers)]))"
  by (simp add: create_observers_def split: prod.splits)

lemma create_observers_log:
  "set (snd (create_observers_loop env 0 (WATCH_CONFIGS env) ([], [(INFO, Creating_observers)])))
     \<subseteq> set (snd (create_observers env))"
  by (auto simp: create_observers_def split: prod.splits)

text \<open>
  Claim C5. The configurations that get an observer are, in order, exactly those with
  both keys, an existing source directory and an observer that starts: so a missing
  directory or an exception in one pass takes nothing from the other configurations,
  a configuration whose directory is missing gets no observer and a warning that names
  the directory, every observer watches the existing source directory of its
  configuration, and there is at most one observer for each configuration.
\<close>

theorem create_observers_skips_and_continues:
  "map snd (fst (create_observers env)) = filter (activates env) (WATCH_CONFIGS env) \<and>
   (\<forall>c \<in> set (WATCH_CONFIGS env). activates env c \<longrightarrow> c \<in> snd ` set (fst (create_observers env))) \<and>
   (\<forall>c \<in> set (WATCH_CONFIGS env). source_missing env c \<longrightarrow>
      c \<notin> snd ` set (fst (create_observers env)) \<and>
      (\<exists>p. watch_dir c = Some p \<and>
           (WARNING, Skipping_missing_directory p) \<in> set (snd (create_observers env)))) \<and>
   (\<forall>(ob, c) \<in> set (fst (create_observers env)).
      watch_dir c = Some (watched ob) \<and> path_exists env (watched ob) = Inr True) \<and>
   length (fst (create_observers env)) \<le> length (WATCH_CONFIGS env)"
proof -
  let ?obs = "fst (create_observers env)"
  have configs: "map snd ?obs = filter (activates env) (WATCH_CONFIGS env)"
    by (simp add: create_observers_fst loop_configs)
  then have img: "snd ` set ?obs = {c \<in> set (WATCH_CONFIGS env). activates env c}"
    by (metis set_filter set_map)
  have not_both: "source_missing env c \<Longrightarrow> \<not> activates env c" for c
    by (auto simp: source_missing_def activates_def split: option.splits)
  have warned: "\<exists>p. watch_dir c = Some p \<and>
           (WARNING, Skipping_missing_directory p) \<in> set (snd (create_observers env))"
    if "c \<in> set (WATCH_CONFIGS env)" "source_missing env c" for c
    using loop_missing [OF that] create_observers_log by blast
  have watched: "\<forall>(ob, c) \<in> set ?obs.
      watch_dir c = Some (watched ob) \<and> path_exists env (watched ob) = Inr True"
    unfolding create_observers_fst by (rule loop_watched) simp
  have "length ?obs = length (map snd ?obs)" by simp
  also have "\<dots> \<le> length (WATCH_CONFIGS env)"
    unfolding configs by (rule length_filter_le)
  finally have len: "length ?obs \<le> length (WATCH_CONFIGS env)" .
  show ?thesis
    using configs img not_both warned watched len by blast
qed

lemma create_observers_configs:
  "map snd (fst (create_observers env)) = filter (activates env) (WATCH_CONFIGS env)"
  by (simp add: create_observers_fst loop_configs)

lemma sample_dirs:
  "dir_in \<noteq> dir_gone" "dir_in \<noteq> dir_locked" "dir_in \<noteq> dir_out" "dir_gone \<noteq> dir_locked"
  "dir_gone \<noteq> dir_icons" "dir_out \<noteq> dir_locked" "dir_out \<noteq> dir_icons" "dir_gone \<noteq> dir_in"
  "dir_locked \<noteq> dir_in" "dir_out \<noteq> dir_in" "dir_locked \<noteq> dir_gone" "dir_icons \<noteq> dir_gone"
  "dir_locked \<noteq> dir_out" "dir_icons \<noteq> dir_out"
  by (simp_all add: dir_in_def dir_gone_def dir_locked_def dir_out_def dir_icons_def ascii_def)

lemma sample_activates:
  "activates sample_environment config_in"
  "\<not> activates sample_environment config_gone"
  "\<not> activates sample_environment config_locked"
  "source_missing sample_environment config_gone"
  by (simp_all add: activates_def source_missing_def sample_environment_def config_in_def config_gone_def
      config_locked_def sample_exists_def sample_dirs)

text \<open>
  The theorem at the sample installation: the rule on the present directory is
  activated although the two rules before it are not, and the missing directory is
  skipped with its warning.
\<close>

theorem create_observers_skips_and_continues_witness:
  "activates sample_environment config_in \<and>
   config_in \<in> snd ` set (fst (create_observers sample_environment)) \<and>
   source_missing sample_environment config_gone \<and>
   config_gone \<notin> snd ` set (fst (create_observers sample_environment)) \<and>
   (WARNING, Skipping_missing_directory dir_gone) \<in> set (snd (create_observers sample_environment)) \<and>
   length (fst (create_observers sample_environment)) \<le> 3"
proof -
  have cs: "WATCH_CONFIGS sample_environment = [config_gone, config_locked, config_in]"
    by (simp add: sample_environment_def)
  have wd: "watch_dir config_gone = Some dir_gone"
    by (simp add: config_gone_def)
  from create_observers_skips_and_continues [of sample_environment] sample_activates(1,4) cs wd
  show ?thesis
    by (simp add: sample_activates)
qed

section \<open>Validation and the destination directory\<close>

lemma activate_observers_dest:
  "map fst obs = map fst obs' \<Longrightarrow>
   map fst (fst (activate env i (c\<lparr>dest_dir := d\<rparr>) (obs, lg))) =
   map fst (fst (activate env i c (obs', lg')))"
  by (auto simp: activate_def Let_def split: option.splits sum.splits bool.splits)

lemma loop_observers_dest:
  "map fst (fst acc) = map fst (fst acc') \<Longrightarrow>
   map fst (fst (create_observers_loop env i (map (\<lambda>c. c\<lparr>dest_dir := g c\<rparr>) cs) acc)) =
   map fst (fst (create_observers_loop env i cs acc'))"
proof (induction cs arbitrary: i acc acc')
  case Nil
  then show ?case by simp
next
  case (Cons c cs)
  obtain obs lg where acc: "acc = (obs, lg)" by (cases acc)
  obtain obs' lg' where acc': "acc' = (obs', lg')" by (cases acc')
  from Cons.prems have "map fst (fst (activate env i (c\<lparr>dest_dir := g c\<rparr>) acc)) =
      map fst (fst (activate env i c acc'))"
    unfolding acc acc' using activate_observers_dest [of obs obs'] by simp
  then show ?case
    using Cons.IH by simp
qed

lemma activate_env_configs:
  "activate (env\<lparr>WATCH_CONFIGS := cs'\<rparr>) i c acc = activate env i c acc"
  by (simp add: activate_def Let_def split: prod.splits option.splits sum.splits bool.splits)

lemma loop_env_configs:
  "create_observers_loop (env\<lparr>WATCH_CONFIGS := cs'\<rparr>) i cs acc = create_observers_loop env i cs acc"
  by (induction cs arbitrary: i acc) (simp_all add: activate_env_configs)

text \<open>
  Claim C4, as the code has it. When none of its calls raises,
  \<open>validate_configuration\<close> returns \<open>True\<close> whatever \<open>validate_paths\<close> answered; a
  negative answer only adds a warning. The observers \<open>create_observers\<close> starts are
  the same whatever the destination directories of the rules are: a rule is activated
  when its source directory exists and its observer starts.
\<close>

theorem activation_ignores_destination:
  "(get_watch_paths env = Inr ps \<and> DEST_BASE env = Inr d \<and>
    validate_paths env
      (ps @ [\<lparr>check_path = d, check_description = dest_base_description\<rparr>,
             \<lparr>check_path = ICON_PATH_parent env, check_description = icon_directory_description\<rparr>])
      = Inr all_valid \<and>
    test_filename_conditions env (WATCH_CONFIGS env) = None \<longrightarrow>
    validate_configuration env =
      (True, (INFO, Checking_configuration) #
             (if all_valid then [] else [(WARNING, Configuration_problems_work_continues)]))) \<and>
   map fst (fst (create_observers
      (env\<lparr>WATCH_CONFIGS := map (\<lambda>c. c\<lparr>dest_dir := g c\<rparr>) (WATCH_CONFIGS env)\<rparr>))) =
     map fst (fst (create_observers env)) \<and>
   map snd (fst (create_observers env)) = filter (activates env) (WATCH_CONFIGS env) \<and>
   activates env (c\<lparr>dest_dir := x\<rparr>) = activates env c"
proof -
  have a: "map fst (fst (create_observers
      (env\<lparr>WATCH_CONFIGS := map (\<lambda>c. c\<lparr>dest_dir := g c\<rparr>) (WATCH_CONFIGS env)\<rparr>))) =
     map fst (fst (create_observers env))"
    by (simp add: create_observers_fst loop_env_configs loop_observers_dest)
  have b: "activates env (c\<lparr>dest_dir := x\<rparr>) = activates env c"
    by (simp add: activates_def split: option.splits)
  show ?thesis
    using a b by (auto simp: validate_configuration_def create_observers_configs)
qed

text \<open>
  Claim C4, as stated, fails at the sample installation: the destination directory of
  the third rule does not exist, validation sees it and still returns \<open>True\<close> with a
  warning, and the rule gets its observer.
\<close>

theorem missing_destination_counterexample:
  "path_exists sample_environment (dest_dir config_in) = Inr False \<and>
   fst (validate_configuration sample_environment) \<and>
   (WARNING, Configuration_problems_work_continues) \<in> set (snd (validate_configuration sample_environment)) \<and>
   map snd (fst (create_observers sample_environment)) = [config_in]"
proof -
  have "\<not> sample_exists dir_out" "\<not> sample_exists dir_gone"
    by (simp_all add: sample_exists_def sample_dirs)
  then have "validate_configuration sample_environment =
      (True, [(INFO, Checking_configuration), (WARNING, Configuration_problems_work_continues)])"
    by (simp add: validate_configuration_def sample_environment_def)
  moreover have "path_exists sample_environment (dest_dir config_in) = Inr False"
    by (simp add: sample_environment_def config_in_def sample_exists_def sample_dirs)
  moreover have "map snd (fst (create_observers sample_environment)) = [config_in]"
  proof -
    have "WATCH_CONFIGS sample_environment = [config_gone, config_locked, config_in]"
      by (simp add: sample_environment_def)
    then show ?thesis
      by (simp add: create_observers_configs sample_activates)
  qed
  ultimately show ?thesis by simp
qed

text \<open>
  The theorem at the sample installation, where \<open>validate_paths\<close> answers \<open>False\<close>,
  and with every destination moved to another missing directory.
\<close>

theorem activation_ignores_destination_witness:
  "validate_configuration sample_environment =
      (True, [(INFO, Checking_configuration), (WARNING, Configuration_problems_work_continues)]) \<and>
   map fst (fst (create_observers (sample_environment\<lparr>WATCH_CONFIGS :=
       map (\<lambda>c. c\<lparr>dest_dir := dir_gone\<rparr>) (WATCH_CONFIGS sample_environment)\<rparr>))) =
     map fst (fst (create_observers sample_environment))"
proof -
  have "\<not> sample_exists dir_out" "\<not> sample_exists dir_gone"
    by (simp_all add: sample_exists_def sample_dirs)
  then have v: "validate_paths sample_environment
      ([\<lparr>check_path = dir_gone, check_description = ascii ''gone''\<rparr>,
             \<lparr>check_path = dir_locked, check_description = ascii ''locked''\<rparr>,
             \<lparr>check_path = dir_in, check_description = ascii ''in''\<rparr>] @
         [\<lparr>check_path = dir_out, check_description = dest_base_description\<rparr>,
             \<lparr>check_path = ICON_PATH_parent sample_environment, check_description = icon_directory_description\<rparr>])
      = Inr False"
    by (simp add: sample_environment_def)
  have g: "get_watch_paths sample_environment = Inr [\<lparr>check_path = dir_gone, check_description = ascii ''gone''\<rparr>,
             \<lparr>check_path = dir_locked, check_description = ascii ''locked''\<rparr>,
             \<lparr>check_path = dir_in, check_description = ascii ''in''\<rparr>]"
    "DEST_BASE sample_environment = Inr dir_out"
    "test_filename_conditions sample_environment (WATCH_CONFIGS sample_environment) = None"
    by (simp_all add: sample_environment_def)
  from activation_ignores_destination [where env = sample_environment
      and ps = "[\<lparr>check_path = dir_gone, check_description = ascii ''gone''\<rparr>,
             \<lparr>check_path = dir_locked, check_description = ascii ''locked''\<rparr>,
             \<lparr>check_path = dir_in, check_description = ascii ''in''\<rparr>]"
      and d = dir_out and all_valid = False and g = "\<lambda>c. dir_gone" and c = config_in
      and x = dir_gone] v g
  show ?thesis by simp
qed

section \<open>The exit code of \<open>main\<close>\<close>

lemma ends_in_seq:
  assumes "ends_in P m N A" and "\<And>a. ends_in (N a) (f a) N' A"
  shows "ends_in P (seq m f) N' A"
  unfolding ends_in_def
proof (intro allI impI)
  fix s
  assume "P s"
  with assms(1) have m: "case m s of (Normal a, s') \<Rightarrow> N a s' | (Return n, s') \<Rightarrow> A s' | (Raise e, s') \<Rightarrow> A s'"
    by (simp add: ends_in_def)
  obtain c s' where ms: "m s = (c, s')" by (cases "m s")
  show "case seq m f s of (Normal a, s') \<Rightarrow> N' a s' | (Return n, s') \<Rightarrow> A s' | (Raise e, s') \<Rightarrow> A s'"
  proof (cases c)
    case (Normal a)
    with m ms have "N a s'" by simp
    with assms(2) [of a] have "case f a s' of (Normal a, s') \<Rightarrow> N' a s' | (Return n, s') \<Rightarrow> A s' | (Raise e, s') \<Rightarrow> A s'"
      by (simp add: ends_in_def)
    with Normal ms show ?thesis by (simp add: seq_def)
  next
    case (Return n)
    with m ms show ?thesis by (simp add: seq_def)
  next
    case (Raise e)
    with m ms show ?thesis by (simp add: seq_def)
  qed
qed

lemma ends_in_logger_call: "ends_in logger_set (logger_call lvl msg) (\<lambda>_. logger_set) logger_set"
  by (simp add: ends_in_def logger_call_def logger_set_def split: option.splits)

lemma ends_in_call: "ends_in logger_set (call outcome) (\<lambda>_. logger_set) logger_set"
  by (simp add: ends_in_def call_def split: option.splits)

lemma ends_in_skip: "ends_in logger_set skip (\<lambda>_. logger_set) logger_set"
  by (simp add: ends_in_def skip_def)

lemma ends_in_return: "ends_in logger_set (return_stmt n) N logger_set"
  by (simp add: ends_in_def return_stmt_def)

lemma ends_in_assign:
  "(\<And>s. logger (f s) = logger s) \<Longrightarrow> ends_in logger_set (assign f) (\<lambda>_. logger_set) logger_set"
  by (simp add: ends_in_def assign_def logger_set_def)

lemma ends_in_logging_function:
  "ends_in logger_set (logging_function r) (\<lambda>_. logger_set) logger_set"
  by (simp add: ends_in_def logging_function_def logger_set_def split: option.splits)

lemma ends_in_if:
  "ends_in P m N A \<Longrightarrow> ends_in P m' N A \<Longrightarrow> ends_in P (if b then m else m') N A"
  by simp

lemma ends_in_setup_logging:
  "logging_ready env \<Longrightarrow> ends_in (\<lambda>s. True) (setup_logging env) (\<lambda>lg s. True) logger_set"
  by (auto simp: ends_in_def setup_logging_def logging_ready_def
      split: option.splits base_exception.splits)

lemma ends_in_set_logger:
  "ends_in (\<lambda>s. True) (assign (\<lambda>s. s\<lparr>logger := Some lg\<rparr>)) (\<lambda>_. logger_set) logger_set"
  by (simp add: ends_in_def assign_def logger_set_def)

lemma keeps_seq:
  assumes "ends_in logger_set m (\<lambda>_. logger_set) logger_set"
    and "\<And>a. ends_in logger_set (f a) (\<lambda>_. logger_set) logger_set"
  shows "ends_in logger_set (seq m f) (\<lambda>_. logger_set) logger_set"
  using assms by (rule ends_in_seq)

lemma keeps_return: "ends_in logger_set (return_stmt n) (\<lambda>_. logger_set) logger_set"
  by (rule ends_in_return)

lemmas ends_in_rules =
  ends_in_logger_call ends_in_call ends_in_skip ends_in_logging_function

lemma startup_logger:
  assumes "logging_ready env"
  shows "ends_in (\<lambda>s. True) (startup env) (\<lambda>_. logger_set) logger_set"
  unfolding startup_def
  apply (rule ends_in_seq [OF ends_in_setup_logging [OF assms]])
  apply (rule ends_in_seq [OF ends_in_set_logger])
  apply (intro keeps_seq keeps_return ends_in_if ends_in_rules ends_in_assign)
  apply simp_all
  done

lemma signal_handler_logger:
  "signal_handler n s = (c, s') \<Longrightarrow> logger_set s \<Longrightarrow> logger_set s'"
  by (auto simp: signal_handler_def seq_def logger_call_def assign_def logger_set_def
      split: option.splits)

lemma signal_handler_Normal:
  "signal_handler n s = (Normal u, s') \<Longrightarrow> \<not> RUNNING s'"
  by (auto simp: signal_handler_def seq_def logger_call_def assign_def split: option.splits)

lemma console_loop_keeps:
  "console_loop tk i s = Some r \<Longrightarrow> logger_set s \<longrightarrow> logger_set (snd r)"
proof (induction rule: console_loop.raw_induct [rotated 1, consumes 1])
  case (1 loop tk i s r)
  show ?case
  proof
    assume ls: "logger_set s"
    show "logger_set (snd r)"
    proof (cases "RUNNING s")
      case False
      note 1(2)
      with False have "r = (Normal (), s)" by simp
      with ls show ?thesis by simp
    next
      case True
      show ?thesis
      proof (cases "tk i")
        case Quiet
        with True 1(2) have "loop tk (Suc i) s = Some r" by simp
        from 1(1) [OF this] ls show ?thesis by simp
      next
        case (Signal n)
        obtain c1 s1 where h: "signal_handler n s = (c1, s1)" by (cases "signal_handler n s")
        then have l1: "logger_set s1" using ls by (rule signal_handler_logger)
        show ?thesis
        proof (cases c1)
          case (Normal u)
          with True Signal h 1(2) have "loop tk (Suc i) s1 = Some r" by simp
          from 1(1) [OF this] l1 show ?thesis by simp
        next
          case (Return m)
          with True Signal h 1(2) have "r = (Return m, s1)" by simp
          with l1 show ?thesis by simp
        next
          case (Raise e)
          with True Signal h 1(2) have "r = (Raise e, s1)" by simp
          with l1 show ?thesis by simp
        qed
      next
        case (Interrupt e)
        with True 1(2) have "r = (Raise e, s)" by simp
        with ls show ?thesis by simp
      qed
    qed
  qed
qed

lemma console_loop_logger:
  "console_loop tk i s = Some (c, s') \<Longrightarrow> logger_set s \<Longrightarrow> logger_set s'"
  using console_loop_keeps [of tk i s "(c, s')"] by simp

lemma console_loop_ends:
  "tk j \<noteq> Quiet \<Longrightarrow> i \<le> j \<Longrightarrow> console_loop tk i s \<noteq> None"
proof (induction "j - i" arbitrary: i s)
  case 0
  then have ij: "i = j" by simp
  show ?case
  proof (cases "RUNNING s")
    case False
    then show ?thesis by (subst console_loop.simps) simp
  next
    case True
    show ?thesis
    proof (cases "tk i")
      case Quiet
      with 0 ij show ?thesis by simp
    next
      case (Signal n)
      obtain c1 s1 where h: "signal_handler n s = (c1, s1)" by (cases "signal_handler n s")
      show ?thesis
      proof (cases c1)
        case (Normal u)
        with h have "\<not> RUNNING s1" by (simp add: signal_handler_Normal)
        then have "console_loop tk (Suc i) s1 = Some (Normal (), s1)"
          by (subst console_loop.simps) simp
        with True Signal h Normal show ?thesis
          by (subst console_loop.simps) simp
      next
        case (Return m)
        with True Signal h show ?thesis by (subst console_loop.simps) simp
      next
        case (Raise e)
        with True Signal h show ?thesis by (subst console_loop.simps) simp
      qed
    next
      case (Interrupt e)
      with True show ?thesis by (subst console_loop.simps) simp
    qed
  qed
next
  case (Suc k)
  show ?case
  proof (cases "RUNNING s")
    case False
    then show ?thesis by (subst console_loop.simps) simp
  next
    case True
    show ?thesis
    proof (cases "tk i")
      case Quiet
      from Suc have "k = j - Suc i" "Suc i \<le> j" by simp_all
      from Suc(1) [OF this(1) Suc(3) this(2)] have "console_loop tk (Suc i) s \<noteq> None" .
      with True Quiet show ?thesis by (subst console_loop.simps) simp
    next
      case (Signal n)
      obtain c1 s1 where h: "signal_handler n s = (c1, s1)" by (cases "signal_handler n s")
      show ?thesis
      proof (cases c1)
        case (Normal u)
        with h have "\<not> RUNNING s1" by (simp add: signal_handler_Normal)
        then have "console_loop tk (Suc i) s1 = Some (Normal (), s1)"
          by (subst console_loop.simps) simp
        with True Signal h Normal show ?thesis
          by (subst console_loop.simps) simp
      next
        case (Return m)
        with True Signal h show ?thesis by (subst console_loop.simps) simp
      next
        case (Raise e)
        with True Signal h show ?thesis by (subst console_loop.simps) simp
      qed
    next
      case (Interrupt e)
      with True show ?thesis by (subst console_loop.simps) simp
    qed
  qed
qed

lemma logger_call_logger:
  "logger_call lvl msg s = (c, s') \<Longrightarrow> logger_set s \<Longrightarrow> logger_set s'"
  by (auto simp: logger_call_def logger_set_def split: option.splits)

lemma wait_logger:
  assumes "wait env s = Some (c, s')" and "logger_set s"
  shows "logger_set s'"
proof (cases "tray_icon s")
  case True
  obtain c1 s1 where l: "logger_call INFO Tray_mode s = (c1, s1)"
    by (cases "logger_call INFO Tray_mode s")
  then have l1: "logger_set s1" using assms(2) by (rule logger_call_logger)
  with assms(1) True l show ?thesis
    by (cases c1) (auto simp: wait_def tray_run_def split: option.splits base_exception.splits)
next
  case False
  obtain c1 s1 where l: "logger_call INFO Console_mode s = (c1, s1)"
    by (cases "logger_call INFO Console_mode s")
  then have l1: "logger_set s1" using assms(2) by (rule logger_call_logger)
  show ?thesis
  proof (cases c1)
    case (Normal u)
    with assms(1) False l obtain c2 s2 where c2: "console_loop (ticks env) 0 s1 = Some (c2, s2)"
      by (auto simp: wait_def split: option.splits)
    then have l2: "logger_set s2" using l1 by (rule console_loop_logger)
    from assms(1) False l Normal c2 have
      "(c, s') = (c2, s2) \<or> (c, s') = logger_call INFO Ctrl_c_received s2"
      by (auto simp: wait_def split: completion.splits base_exception.splits)
    with l2 show ?thesis
      using logger_call_logger [of INFO Ctrl_c_received s2 c s'] by auto
  next
    case (Return n)
    with assms(1) False l l1 show ?thesis by (simp add: wait_def)
  next
    case (Raise e)
    with assms(1) False l l1 show ?thesis by (simp add: wait_def)
  qed
qed

lemma try_body_logger:
  assumes "logging_ready env" and "try_body env s = Some (c, s')"
  shows "logger_set s'"
proof -
  obtain c1 s1 where st: "startup env s = (c1, s1)" by (cases "startup env s")
  have "case startup env s of
          (Normal a, s') \<Rightarrow> logger_set s'
        | (Return n, s') \<Rightarrow> logger_set s'
        | (Raise e, s') \<Rightarrow> logger_set s'"
    using startup_logger [OF assms(1)] by (simp add: ends_in_def)
  with st have l1: "logger_set s1"
    by (cases c1) simp_all
  show ?thesis
  proof (cases c1)
    case (Normal u)
    with assms(2) st have "wait env s1 = Some (c, s')" by (simp add: try_body_def)
    then show ?thesis using l1 by (rule wait_logger)
  next
    case (Return n)
    with assms(2) st l1 show ?thesis by (simp add: try_body_def)
  next
    case (Raise e)
    with assms(2) st l1 show ?thesis by (simp add: try_body_def)
  qed
qed

lemma handlers_logger:
  "handlers env (c, s) = (c', s') \<Longrightarrow> logger_set s \<Longrightarrow> logger_set s'"
  by (auto simp: handlers_def seq_def logger_call_def call_def return_stmt_def logger_set_def
      split: completion.splits base_exception.splits option.splits)

lemma logger_call_set:
  "logger_set s \<Longrightarrow> logger_call lvl msg s = (Normal (), s\<lparr>records := records s @ [(lvl, msg)]\<rparr>)"
  by (simp add: logger_call_def logger_set_def split: option.splits)

lemma stops_cases:
  "stops_within_Exception env \<Longrightarrow>
   observer_stop env p = None \<or> (\<exists>e. observer_stop env p = Some (Exception e))"
  unfolding stops_within_Exception_def
  by (erule allE [of _ p]) (auto split: option.splits base_exception.splits)

lemma cleanup_loop_contained:
  assumes "stops_within_Exception env"
  shows "logger_set s \<Longrightarrow>
         \<exists>s'. cleanup_loop env i obs s = (Normal (), s') \<and> logger_set s' \<and> RUNNING s' = RUNNING s"
proof (induction obs arbitrary: i s)
  case Nil
  then show ?case by (simp add: skip_def)
next
  case (Cons a obs)
  obtain ob config where a: "a = (ob, config)" by (cases a)
  have l: "logger_set (s\<lparr>records := records s @ [r]\<rparr>)" for r
    using Cons.prems by (simp add: logger_set_def)
  have next_pass: "\<exists>s'. cleanup_loop env (Suc i) obs (s\<lparr>records := records s @ [r]\<rparr>) = (Normal (), s') \<and>
      logger_set s' \<and> RUNNING s' = RUNNING s" for r
    using Cons.IH [OF l, of "Suc i" r] by simp
  from stops_cases [OF assms, of "watched ob"] show ?case
  proof
    assume "observer_stop env (watched ob) = None"
    with Cons.prems next_pass show ?thesis
      by (simp add: a seq_def logger_call_set)
  next
    assume "\<exists>e. observer_stop env (watched ob) = Some (Exception e)"
    then obtain e where "observer_stop env (watched ob) = Some (Exception e)" ..
    with Cons.prems next_pass show ?thesis
      by (simp add: a seq_def logger_call_set)
  qed
qed

lemma cleanup_observers_contained:
  assumes "stops_within_Exception env" and "logger_set s"
  shows "\<exists>s'. cleanup_observers env obs s = (Normal (), s') \<and> logger_set s' \<and> RUNNING s' = RUNNING s"
proof -
  let ?s1 = "s\<lparr>records := records s @ [(INFO, Stopping_observers)]\<rparr>"
  have "logger_set ?s1"
    using assms(2) by (simp add: logger_set_def)
  from cleanup_loop_contained [OF assms(1) this, of 0 obs] obtain s2 where
    s2: "cleanup_loop env 0 obs ?s1 = (Normal (), s2)" "logger_set s2" "RUNNING s2 = RUNNING s"
    by auto
  from s2(2) have "logger_set (s2\<lparr>records := records s2 @ [(INFO, All_observers_stopped)]\<rparr>)"
    by (simp add: logger_set_def)
  with assms(2) s2 show ?thesis
    by (simp add: cleanup_observers_def seq_def logger_call_set)
qed

lemma finally_body_contained:
  assumes "stops_within_Exception (world env)" and "logger_set s"
  shows "\<exists>s'. finally_body env s = (Return 0, s') \<and> \<not> RUNNING s'"
proof -
  let ?s2 = "s\<lparr>records := records s @ [(INFO, Shutting_down)], RUNNING := False\<rparr>"
  have l2: "logger_set ?s2"
    using assms(2) by (simp add: logger_set_def)
  have "\<exists>s3. (case observers ?s2 of
                 None \<Rightarrow> skip ?s2
               | Some obs \<Rightarrow> cleanup_observers (world env) obs ?s2) = (Normal (), s3) \<and>
             logger_set s3 \<and> \<not> RUNNING s3"
  proof (cases "observers s")
    case None
    with l2 show ?thesis by (simp add: skip_def)
  next
    case (Some obs)
    from cleanup_observers_contained [OF assms(1) l2, of obs] Some show ?thesis
      by auto
  qed
  then obtain s3 where s3: "(case observers ?s2 of
                 None \<Rightarrow> skip ?s2
               | Some obs \<Rightarrow> cleanup_observers (world env) obs ?s2) = (Normal (), s3)"
      "logger_set s3" "\<not> RUNNING s3"
    by blast
  with assms(2) show ?thesis
    by (simp add: finally_body_def seq_def logger_call_set assign_def return_stmt_def)
qed

lemma finally_block_contained:
  "stops_within_Exception (world env) \<Longrightarrow> logger_set s \<Longrightarrow>
   \<exists>s'. finally_block env (c, s) = (Returned 0, s') \<and> \<not> RUNNING s'"
  using finally_body_contained [of env s] by (auto simp: finally_block_def)

lemma try_body_ends:
  assumes "icon_run env \<noteq> None" and "ticks env j \<noteq> Quiet"
  shows "try_body env s \<noteq> None"
proof -
  have loop: "console_loop (ticks env) 0 s2 \<noteq> None" for s2
    using console_loop_ends [of "ticks env" j 0 s2] assms(2) by simp
  have w: "wait env s1 \<noteq> None" for s1
  proof (cases "tray_icon s1")
    case True
    with assms(1) show ?thesis
      by (auto simp: wait_def tray_run_def split: prod.splits completion.splits option.splits
          base_exception.splits)
  next
    case False
    obtain c2 s2 where l: "logger_call INFO Console_mode s1 = (c2, s2)"
      by (cases "logger_call INFO Console_mode s1")
    from loop [of s2] obtain c3 s3 where "console_loop (ticks env) 0 s2 = Some (c3, s3)"
      by auto
    with False l show ?thesis
      by (cases c2) (auto simp: wait_def split: completion.splits base_exception.splits)
  qed
  obtain c1 s1 where st: "startup env s = (c1, s1)" by (cases "startup env s")
  from w [of s1] st show ?thesis
    by (cases c1) (simp_all add: try_body_def)
qed

text \<open>
  Claim C9 fails in the code. When Ctrl+C interrupts \<open>setup_logging\<close>, the global
  \<open>logger\<close> is still \<open>None\<close>: the \<open>except KeyboardInterrupt\<close> clause and then the
  \<open>finally\<close> block raise \<open>AttributeError\<close> at their first statement, \<open>return 0\<close> is
  never reached, and \<open>main\<close> returns nothing.
\<close>

theorem main_raises_when_setup_logging_is_interrupted:
  "main interrupted_environment initial_state =
     Some (Raised (Exception AttributeError), initial_state)"
  by (simp add: main_def try_body_def startup_def seq_def setup_logging_def handlers_def
      logger_call_def finally_block_def finally_body_def
      interrupted_environment_def console_environment_def initial_state_def)

text \<open>
  An exception outside \<open>Exception\<close> from the stop of an observer leaves the \<open>finally\<close>
  block as well, in place of the \<open>return 0\<close>.
\<close>

lemma finally_block_interrupted_stop:
  assumes "logger s = Some lg" and "observers s = Some ((ob, config) # rest)"
    and "observer_stop (world env) (watched ob) = Some KeyboardInterrupt"
  shows "fst (finally_block env (pending, s)) = Raised KeyboardInterrupt"
  using assms
  by (simp add: finally_block_def finally_body_def seq_def logger_call_def assign_def
      cleanup_observers_def call_def)

text \<open>
  On the other paths the \<open>return 0\<close> of the \<open>finally\<close> block does decide. Once
  \<open>setup_logging\<close> has returned a logger, and as long as \<open>stop\<close> and \<open>join\<close> of the
  observers raise nothing outside \<open>Exception\<close>, every call of \<open>main\<close> that ends
  returns 0 and leaves \<open>RUNNING\<close> false, whatever the \<open>try\<close> body and the handlers
  ended with: a \<open>return 1\<close>, an exception caught or not caught. And \<open>main\<close> does end
  when the tray loop returns and some tick of the console loop is not quiet.
\<close>

lemma main_returns_0_when_exceptions_are_contained:
  "(logging_ready env \<and> stops_within_Exception (world env) \<longrightarrow>
      (\<forall>r s'. main env s = Some (r, s') \<longrightarrow> r = Returned 0 \<and> \<not> RUNNING s')) \<and>
   (icon_run env \<noteq> None \<and> (\<exists>j. ticks env j \<noteq> Quiet) \<longrightarrow> main env s \<noteq> None)"
proof (intro conjI impI allI)
  fix r s'
  assume "logging_ready env \<and> stops_within_Exception (world env)"
  then have ready: "logging_ready env" and stops: "stops_within_Exception (world env)"
    by simp_all
  assume m: "main env s = Some (r, s')"
  from m obtain c1 s1 where t: "try_body env s = Some (c1, s1)"
    by (auto simp: main_def split: option.splits)
  from try_body_logger [OF ready t] have l1: "logger_set s1" .
  obtain c2 s2 where h: "handlers env (c1, s1) = (c2, s2)" by (cases "handlers env (c1, s1)")
  then have "logger_set s2" using l1 by (rule handlers_logger)
  then obtain s3 where "finally_block env (c2, s2) = (Returned 0, s3)" "\<not> RUNNING s3"
    using finally_block_contained [OF stops] by blast
  with m t h show "r = Returned 0" "\<not> RUNNING s'"
    by (simp_all add: main_def)
next
  assume "icon_run env \<noteq> None \<and> (\<exists>j. ticks env j \<noteq> Quiet)"
  then have "try_body env s \<noteq> None"
    using try_body_ends by blast
  then show "main env s \<noteq> None"
    by (auto simp: main_def)
qed

lemma startup_failing_validation:
  "fst (startup failing_validation_environment initial_state) = Return 1"
  by (simp add: startup_def seq_def setup_logging_def assign_def logger_call_def call_def
      logging_function_def validate_configuration_def return_stmt_def
      failing_validation_environment_def console_environment_def initial_state_def)

text \<open>
  Two sample runs: validation fails and the \<open>try\<close> body executes \<open>return 1\<close>, or all
  goes well until SIGINT; \<open>main\<close> returns 0 both times.
\<close>

lemma main_sample_runs_return_0:
  "fst (startup failing_validation_environment initial_state) = Return 1 \<and>
   map_option fst (main failing_validation_environment initial_state) = Some (Returned 0) \<and>
   map_option fst (main console_environment initial_state) = Some (Returned 0)"
proof -
  have r1: "logging_ready failing_validation_environment"
    and w1: "stops_within_Exception (world failing_validation_environment)"
    and i1: "icon_run failing_validation_environment \<noteq> None"
    and t1: "ticks failing_validation_environment 2 \<noteq> Quiet"
    by (simp_all add: logging_ready_def stops_within_Exception_def sample_environment_def
        failing_validation_environment_def console_environment_def)
  have r2: "logging_ready console_environment"
    and w2: "stops_within_Exception (world console_environment)"
    and i2: "icon_run console_environment \<noteq> None"
    and t2: "ticks console_environment 2 \<noteq> Quiet"
    by (simp_all add: logging_ready_def stops_within_Exception_def sample_environment_def
        console_environment_def)
  have m1: "map_option fst (main failing_validation_environment initial_state) = Some (Returned 0)"
    using main_returns_0_when_exceptions_are_contained [of failing_validation_environment initial_state]
      r1 w1 i1 t1 by (cases "main failing_validation_environment initial_state") auto
  have m2: "map_option fst (main console_environment initial_state) = Some (Returned 0)"
    using main_returns_0_when_exceptions_are_contained [of console_environment initial_state]
      r2 w2 i2 t2 by (cases "main console_environment initial_state") auto
  from m1 m2 startup_failing_validation show ?thesis
    by simp
qed

text \<open>The console run, in full.\<close>

lemma console_loop_sample:
  "RUNNING s \<Longrightarrow> logger s = Some lg \<Longrightarrow>
   console_loop (ticks console_environment) 0 s =
     Some (Normal (), s\<lparr>RUNNING := False, records := records s @ [(INFO, Signal_received 2)]\<rparr>)"
  apply (subst console_loop.simps)
  apply (simp add: console_environment_def)
  apply (subst console_loop.simps)
  apply simp
  apply (subst console_loop.simps)
  apply (simp add: signal_handler_def seq_def logger_call_def assign_def)
  apply (subst console_loop.simps)
  apply simp
  done

section \<open>Quitting from the tray\<close>

lemma quit_except_main: "main_module (snd (quit_except e p)) = main_module p"
  by (cases e) (simp_all add: quit_except_def)

lemma quit_app_main_module: "main_module (snd (quit_app env p)) = main_module p"
  by (simp add: quit_app_def Let_def quit_except_main split: option.splits)

text \<open>
  Claim C10. \<open>quit_app\<close> changes nothing of the module \<open>main\<close>: a \<open>RUNNING\<close> that was
  true stays true, and the console loop, which tests this global, runs from the state
  after \<open>quit_app\<close> as from the state before. What \<open>quit_app\<close> clears, once the import
  has succeeded, is \<open>config.settings.RUNNING\<close> and the \<open>running\<close> attribute of the
  \<open>TrayApp\<close> instance.
\<close>

theorem quit_app_leaves_main_RUNNING:
  "main_module (snd (quit_app env p)) = main_module p \<and>
   (RUNNING (main_module p) \<longrightarrow> RUNNING (main_module (snd (quit_app env p)))) \<and>
   console_loop tk i (main_module (snd (quit_app env p))) = console_loop tk i (main_module p) \<and>
   (import_settings env = None \<longrightarrow>
      settings_RUNNING (snd (quit_app env p)) = Some False \<and>
      \<not> running (app (snd (quit_app env p))))"
proof -
  have "settings_RUNNING (snd (quit_except e q)) = settings_RUNNING q \<and>
        running (app (snd (quit_except e q))) = running (app q)" for e q
    by (cases e) (simp_all add: quit_except_def)
  then have "import_settings env = None \<Longrightarrow>
      settings_RUNNING (snd (quit_app env p)) = Some False \<and>
      \<not> running (app (snd (quit_app env p)))"
    by (simp add: quit_app_def Let_def split: option.splits)
  then show ?thesis
    by (simp add: quit_app_main_module)
qed

text \<open>The theorem at the sample process, where no call of \<open>quit_app\<close> raises.\<close>

theorem quit_app_leaves_main_RUNNING_witness:
  "RUNNING (main_module sample_process) \<and>
   RUNNING (main_module (snd (quit_app quiet_quit sample_process))) \<and>
   import_settings quiet_quit = None \<and>
   settings_RUNNING (snd (quit_app quiet_quit sample_process)) = Some False \<and>
   \<not> running (app (snd (quit_app quiet_quit sample_process)))"
proof -
  have "RUNNING (main_module sample_process)"
    by (simp add: sample_process_def initial_state_def)
  moreover have "import_settings quiet_quit = None"
    by (simp add: quiet_quit_def)
  ultimately show ?thesis
    using quit_app_leaves_main_RUNNING [of quiet_quit sample_process] by simp
qed

section \<open>Copying without overwriting\<close>

lemma undecimal_decimal: "undecimal (decimal n) = n"
proof (induction n rule: decimal.induct)
  case (1 n)
  show ?case
  proof (cases "n < 10")
    case True
    then show ?thesis by (subst decimal.simps) (simp add: undecimal_def)
  next
    case False
    with 1 have "undecimal (decimal (n div 10)) = n div 10" by simp
    with False show ?thesis
      by (subst decimal.simps) (simp add: undecimal_def)
  qed
qed

lemma decimal_inj: "decimal m = decimal n \<Longrightarrow> m = n"
  by (metis undecimal_decimal)

lemma candidate_inj: "candidate name ts j = candidate name ts k \<Longrightarrow> j = k"
  by (auto simp: candidate_def dest: decimal_inj)

lemma candidate_not_name: "candidate name ts k \<noteq> name"
  by (simp add: candidate_def)

lemma candidates_distinct: "distinct (map (candidate name ts) [0..<n])"
  by (simp add: distinct_map inj_on_def) (blast dest: candidate_inj)

lemma some_candidate_free:
  "\<exists>c \<in> set (map (candidate name ts) [0..<Suc (length dest)]). map_of dest c = None"
proof (rule ccontr)
  let ?cs = "map (candidate name ts) [0..<Suc (length dest)]"
  assume "\<not> (\<exists>c \<in> set ?cs. map_of dest c = None)"
  then have "set ?cs \<subseteq> fst ` set dest"
    by (auto simp: map_of_eq_None_iff)
  then have "card (set ?cs) \<le> card (fst ` set dest)"
    by (intro card_mono) simp_all
  also have "\<dots> \<le> length dest"
    by (metis card_image_le card_length le_trans List.finite_set)
  finally have "card (set ?cs) \<le> length dest" .
  moreover have "card (set ?cs) = length ?cs"
    using candidates_distinct [of name ts "Suc (length dest)"] by (rule distinct_card)
  moreover have "length ?cs = Suc (length dest)"
    by simp
  ultimately show False by simp
qed

lemma free_name_Some:
  "\<exists>path. free_name dest name ts = Some path"
  using some_candidate_free [of name ts dest]
  by (cases "free_name dest name ts") (auto simp: free_name_def find_None_iff simp del: upt_Suc)

lemma free_name_props:
  assumes "free_name dest name ts = Some path"
  shows "map_of dest path = None" and "\<exists>k \<le> length dest. path = candidate name ts k"
proof -
  from assms obtain i where i: "i < length (map (candidate name ts) [0..<Suc (length dest)])"
      "map_of dest (map (candidate name ts) [0..<Suc (length dest)] ! i) = None"
      "path = map (candidate name ts) [0..<Suc (length dest)] ! i"
    unfolding free_name_def find_Some_iff by blast
  from i(2,3) show "map_of dest path = None" by simp
  from i(1) have "i \<le> length dest" by simp
  moreover from i(1,3) have "path = candidate name ts i"
    by (simp del: upt_Suc)
  ultimately show "\<exists>k \<le> length dest. path = candidate name ts k" by blast
qed

lemma copy_file_conflict:
  assumes "map_of dest name = Some existing"
  shows "\<exists>path k. k \<le> length dest \<and> path = candidate name ts k \<and> map_of dest path = None \<and>
     copy_file dest name content ts =
       Inr \<lparr>destination_path = path, destination_after = (path, content) # dest,
            conflict_warning = True\<rparr>"
proof -
  obtain path where p: "free_name dest name ts = Some path"
    using free_name_Some by blast
  from free_name_props [OF p] obtain k where "k \<le> length dest" "path = candidate name ts k"
    "map_of dest path = None" by blast
  with assms p show ?thesis
    by (auto simp: copy_file_def)
qed

text \<open>
  Claim C8. When the destination already holds a file of the target name, the copy
  succeeds at another path, the name with a suffix made of the timestamp or one of the
  numbers after it; that path was free, it now holds the new content, the file of the
  target name keeps its content, and a warning is logged. Whatever the copy does, every
  file that was in the destination is still there with the same content.
\<close>

theorem copy_never_overwrites:
  "(map_of dest name = Some existing \<longrightarrow>
      (\<exists>action. copy_file dest name content ts = Inr action \<and>
         destination_path action \<noteq> name \<and>
         (\<exists>k \<le> length dest. destination_path action = candidate name ts k) \<and>
         map_of dest (destination_path action) = None \<and>
         map_of (destination_after action) (destination_path action) = Some content \<and>
         map_of (destination_after action) name = Some existing \<and>
         conflict_warning action)) \<and>
   (copy_file dest name content ts = Inr action' \<and> map_of dest file = Some b \<longrightarrow>
      map_of (destination_after action') file = Some b)"
proof (intro conjI impI)
  assume ex: "map_of dest name = Some existing"
  from copy_file_conflict [OF ex, of ts content] obtain path k where
    *: "k \<le> length dest" "path = candidate name ts k" "map_of dest path = None"
    "copy_file dest name content ts =
       Inr \<lparr>destination_path = path, destination_after = (path, content) # dest,
            conflict_warning = True\<rparr>"
    by blast
  have "path \<noteq> name"
    using *(2) candidate_not_name by simp
  with * ex show "\<exists>action. copy_file dest name content ts = Inr action \<and>
         destination_path action \<noteq> name \<and>
         (\<exists>k \<le> length dest. destination_path action = candidate name ts k) \<and>
         map_of dest (destination_path action) = None \<and>
         map_of (destination_after action) (destination_path action) = Some content \<and>
         map_of (destination_after action) name = Some existing \<and>
         conflict_warning action"
    by auto
next
  assume a: "copy_file dest name content ts = Inr action' \<and> map_of dest file = Some b"
  show "map_of (destination_after action') file = Some b"
  proof (cases "map_of dest name")
    case None
    with a show ?thesis
      by (auto simp: copy_file_def)
  next
    case (Some existing)
    from copy_file_conflict [OF Some, of ts content] a show ?thesis
      by auto
  qed
qed

text \<open>The sample copy: the timestamp is taken, the next number is free.\<close>

lemma decimal_sample: "decimal 1755252000 = ascii ''1755252000''"
  by (simp add: decimal.simps ascii_def)

lemma decimal_sample1: "decimal 1755252001 = ascii ''1755252001''"
  by (simp add: decimal.simps ascii_def)

lemma copy_sample:
  "copy_file sample_destination report_xlsx [9, 9] 1755252000 =
     Inr \<lparr>destination_path = ascii ''report.xlsx_1755252001'',
          destination_after = (ascii ''report.xlsx_1755252001'', [9, 9]) # sample_destination,
          conflict_warning = True\<rparr>"
  by (simp add: copy_file_def free_name_def candidate_def sample_destination_def report_xlsx_def
      decimal_sample decimal_sample1 upt_rec ascii_def)

text \<open>
  The theorem at the sample destination: the second \<open>report.xlsx\<close> lands at
  \<open>report.xlsx_1755252001\<close> and the first keeps its four bytes.
\<close>

theorem copy_never_overwrites_witness:
  "map_of sample_destination report_xlsx = Some [80, 75, 3, 4] \<and>
   copy_file sample_destination report_xlsx [9, 9] 1755252000 =
     Inr \<lparr>destination_path = ascii ''report.xlsx_1755252001'',
          destination_after = (ascii ''report.xlsx_1755252001'', [9, 9]) # sample_destination,
          conflict_warning = True\<rparr> \<and>
   map_of ((ascii ''report.xlsx_1755252001'', [9, 9]) # sample_destination) report_xlsx =
     Some [80, 75, 3, 4]"
proof -
  have ex: "map_of sample_destination report_xlsx = Some [80, 75, 3, 4]"
    by (simp add: sample_destination_def report_xlsx_def)
  from copy_never_overwrites [of sample_destination report_xlsx "[80, 75, 3, 4]" "[9, 9]"
      1755252000 _ report_xlsx "[80, 75, 3, 4]"] ex copy_sample
  show ?thesis
    by simp
qed

end
